theory Spec2Isabelle
  imports Main "HOL-Library.Word"
begin

section \<open>Data model of the BSP runtime (bsp/bspClass.h)\<close>

text \<open>
  Sizes, offsets, process ids and addresses are natural numbers (\<open>size_t\<close>, \<open>uint32_t\<close>
  and pointers of the source); no claim below depends on their wrap-around.  The
  user's address space is a total map from addresses to bytes; the arenas of the
  runtime live outside it.
\<close>

type_synonym byte = "8 word"
type_synonym addr = nat
type_synonym entry = nat

datatype error = BspAbort | AssertFailed | OutOfBounds

definition SIZE_MAX :: nat where
  "SIZE_MAX = 2 ^ 64 - 1"

definition gPID_unset :: nat where
  "gPID_unset = 3735928559"

definition read_bytes :: "(addr \<Rightarrow> byte) \<Rightarrow> addr \<Rightarrow> nat \<Rightarrow> byte list" where
  "read_bytes m a n = map m [a..<a + n]"

definition write_bytes :: "(addr \<Rightarrow> byte) \<Rightarrow> addr \<Rightarrow> byte list \<Rightarrow> (addr \<Rightarrow> byte)" where
  "write_bytes m a bs = (\<lambda>x. if a \<le> x \<and> x < a + length bs then bs ! (x - a) else m x)"

subsection \<open>Stack arena\<close>

text \<open>
  Modelled from the spec: the class \<open>BspInternal::StackAllocator\<close> is not among the
  sources.  Section 4.1 of the specification describes it as an append-only byte
  buffer: \<open>alloc(n, src)\<close> appends \<open>n\<close> bytes copied from \<open>src\<close> and returns the offset
  at which they were placed, \<open>extract(offset, n, dst)\<close> copies \<open>n\<close> bytes starting at
  \<open>offset\<close> into \<open>dst\<close>, \<open>size\<close> is the high-water mark, \<open>merge\<close> appends the contents of
  another arena and \<open>clear\<close> resets the size to zero.
\<close>

type_synonym StackAllocator = "byte list"
type_synonym StackLocation = nat

definition Alloc :: "nat \<Rightarrow> addr \<Rightarrow> (addr \<Rightarrow> byte) \<Rightarrow> StackAllocator \<Rightarrow> StackAllocator \<times> StackLocation" where
  "Alloc n src m st = (st @ read_bytes m src n, length st)"

definition stack_bytes :: "StackAllocator \<Rightarrow> StackLocation \<Rightarrow> nat \<Rightarrow> byte list" where
  "stack_bytes st loc n = take n (drop loc st)"

definition Extract :: "StackLocation \<Rightarrow> nat \<Rightarrow> addr \<Rightarrow> StackAllocator \<Rightarrow> (addr \<Rightarrow> byte) \<Rightarrow> (addr \<Rightarrow> byte)" where
  "Extract loc n dst st m = write_bytes m dst (stack_bytes st loc n)"

definition Size :: "StackAllocator \<Rightarrow> nat" where
  "Size st = length st"

definition Merge :: "StackAllocator \<Rightarrow> StackAllocator \<Rightarrow> StackAllocator" where
  "Merge st other = st @ other"

definition Clear :: "StackAllocator \<Rightarrow> StackAllocator" where
  "Clear st = []"

subsection \<open>Communication queue matrix\<close>

text \<open>
  Modelled from the spec: the class template \<open>BspInternal::CommunicationQueues\<close> is not
  among the sources.  Section 4.3 of the specification describes a P x P array with
  \<open>from_me(to, my_pid) = queue[my_pid][to]\<close> and \<open>to_me(from, my_pid) = queue[from][my_pid]\<close>;
  \<open>reset_resize(P)\<close> re-allocates the matrix.
\<close>

type_synonym 'a CommunicationQueues = "'a list list"

definition GetQueueFromMe :: "nat \<Rightarrow> nat \<Rightarrow> 'a CommunicationQueues \<Rightarrow> 'a" where
  "GetQueueFromMe to me q = q ! me ! to"

definition GetQueueToMe :: "nat \<Rightarrow> nat \<Rightarrow> 'a CommunicationQueues \<Rightarrow> 'a" where
  "GetQueueToMe from me q = q ! from ! me"

definition SetQueueFromMe :: "nat \<Rightarrow> nat \<Rightarrow> 'a \<Rightarrow> 'a CommunicationQueues \<Rightarrow> 'a CommunicationQueues" where
  "SetQueueFromMe to me v q = q[me := (q ! me)[to := v]]"

definition SetQueueToMe :: "nat \<Rightarrow> nat \<Rightarrow> 'a \<Rightarrow> 'a CommunicationQueues \<Rightarrow> 'a CommunicationQueues" where
  "SetQueueToMe from me v q = q[from := (q ! from)[me := v]]"

definition ResetResize :: "nat \<Rightarrow> 'a \<Rightarrow> 'a CommunicationQueues" where
  "ResetResize P d = replicate P (replicate P d)"

subsection \<open>Request records\<close>

text \<open>
  Modelled from the spec: \<open>bsp/requests.h\<close> is not among the sources.  The fields are
  those the source reads and writes (\<open>bufferLocation\<close>, \<open>destination\<close>, \<open>size\<close>, ...),
  prefixed by the kind of request since several records share a field name.
\<close>

record PutRequest =
  put_bufferLocation :: StackLocation
  put_destination :: addr
  put_size :: nat

record GetRequest =
  get_destination :: addr
  get_source :: addr
  get_size :: nat

record SendRequest =
  send_bufferLocation :: StackLocation
  send_bufferSize :: nat
  send_tagLocation :: StackLocation
  send_tagSize :: nat

record RegisterInfo =
  reg_size :: nat
  registerCount :: nat

record PushRequest =
  pushRegister :: addr
  registerInfo :: RegisterInfo

record PopRequest =
  popRegister :: addr

subsection \<open>The singleton's state\<close>

text \<open>
  One field per data member of class \<open>BSP\<close>.  The threads, the start times and the
  barrier object are left out (real time and thread handles); the barrier's behaviour
  is modelled by \<open>SyncPoint\<close> and by the rules of \<open>sync_step\<close> below.  Two ambient
  components are carried along: the address space the requests point into, and the
  lines written to the diagnostic stream.
\<close>

record bsp =
  mPutBufferStacks :: "StackAllocator list"
  mPutRequests :: "PutRequest list CommunicationQueues"
  mGetRequests :: "GetRequest list CommunicationQueues"
  mTmpSendRequests :: "SendRequest list CommunicationQueues"
  mTmpSendBuffers :: "StackAllocator CommunicationQueues"
  mSendBuffers :: "StackAllocator list"
  mSendRequests :: "SendRequest list list"
  mSendReceivedIndex :: "nat list"
  mPushRequests :: "PushRequest list list"
  mPopRequests :: "PopRequest list list"
  mRegisterCount :: "nat list"
  mRegisters :: "(addr \<rightharpoonup> RegisterInfo) list"
  mThreadRegisterLocation :: "addr list list"
  mEntry :: "entry option"
  mProcCount :: nat
  mNewTagSize :: "nat list"
  mTagSize :: nat
  mStartTimes :: "nat list"
  mEnded :: bool
  mAbort :: bool
  memory :: "addr \<Rightarrow> byte"
  stderr_lines :: "string list"
  clock :: nat

text \<open>
  The constructor \<open>BSP()\<close>: every vector empty, \<open>mEnded = true\<close>, \<open>mAbort = false\<close>.  The
  field \<open>clock\<close> is what \<open>std::chrono::high_resolution_clock::now()\<close> returns, a time
  point being a number of ticks.
\<close>

definition BSP_ctor :: "(addr \<Rightarrow> byte) \<Rightarrow> bsp" where
  "BSP_ctor m = \<lparr> mPutBufferStacks = [], mPutRequests = [], mGetRequests = [],
     mTmpSendRequests = [], mTmpSendBuffers = [], mSendBuffers = [], mSendRequests = [],
     mSendReceivedIndex = [], mPushRequests = [], mPopRequests = [], mRegisterCount = [],
     mRegisters = [], mThreadRegisterLocation = [], mEntry = None, mProcCount = 0,
     mNewTagSize = [], mTagSize = 0, mStartTimes = [], mEnded = True, mAbort = False,
     memory = m, stderr_lines = [], clock = 0 \<rparr>"

text \<open>
  The invariant \<open>Begin\<close> establishes: every per-process vector and every queue matrix
  has \<open>mProcCount\<close> entries.
\<close>

definition square :: "nat \<Rightarrow> 'a CommunicationQueues \<Rightarrow> bool" where
  "square P q = (length q = P \<and> list_all (\<lambda>row. length row = P) q)"

definition sized :: "bsp \<Rightarrow> bool" where
  "sized s = (let P = mProcCount s in
     length (mPutBufferStacks s) = P \<and> square P (mPutRequests s) \<and> square P (mGetRequests s) \<and>
     square P (mTmpSendRequests s) \<and> square P (mTmpSendBuffers s) \<and>
     length (mSendBuffers s) = P \<and> length (mSendRequests s) = P \<and>
     length (mSendReceivedIndex s) = P \<and> length (mPushRequests s) = P \<and>
     length (mPopRequests s) = P \<and> length (mRegisterCount s) = P \<and>
     length (mRegisters s) = P \<and> length (mThreadRegisterLocation s) = P \<and>
     length (mNewTagSize s) = P)"

section \<open>Operations issued between two Syncs\<close>

text \<open>
  \<open>ProcId()\<close> is thread-local: every operation below takes the calling thread's value
  of it as the argument \<open>pid\<close> (or \<open>tpid\<close>, as in the source).  \<open>size_t\<close> out-parameters
  are returned as results; byte buffers are addresses into \<open>memory\<close>.  A failed
  \<open>assert\<close> is the error \<open>AssertFailed\<close>, a read past the end of a vector (undefined
  behaviour in the source) is \<open>OutOfBounds\<close>.
\<close>

definition Init :: "entry option \<Rightarrow> bsp \<Rightarrow> bsp \<times> nat" where
  "Init e s =
     (let s1 = s\<lparr>mEntry := e, mTagSize := 0\<rparr>;
          s2 = (if \<not> mEnded s1 \<and> \<not> mAbort s1
                then s1\<lparr>stderr_lines := stderr_lines s1 @
                  [''Warning: initialisation data corresponding to another BSP run found;'',
                   ''         and this other run did not terminate (gracefully).'']\<rparr>
                else s1)
      in (s2, 0))"

definition StartTiming :: "nat \<Rightarrow> bsp \<Rightarrow> error + bsp" where
  "StartTiming pid s =
     (if pid = gPID_unset then Inl AssertFailed
      else if \<not> pid < length (mStartTimes s) then Inl OutOfBounds
      else Inr (s\<lparr>mStartTimes := (mStartTimes s)[pid := clock s]\<rparr>))"

text \<open>
  \<open>Begin\<close>: a process other than 0 checks its arguments and starts its timer; process 0
  resets the flags, resizes every vector to \<open>maxProcs\<close> and starts its timer (the threads
  it spawns are the other values of \<open>pid\<close> here).  With \<open>maxProcs = 0\<close> the timer of
  process 0 is written past the end of the empty vector \<open>mStartTimes\<close>.
\<close>

definition Begin :: "nat \<Rightarrow> nat \<Rightarrow> bsp \<Rightarrow> error + bsp" where
  "Begin pid maxProcs s =
     (if pid \<noteq> 0 then
        (let s1 = (if pid = gPID_unset
                   then s\<lparr>stderr_lines := stderr_lines s @
                     [''A processor with ID `0xdeadbeef` is found, this can happen when you forget to call Init().'']\<rparr>
                   else s)
         in if maxProcs = mProcCount s1 \<and> pid < maxProcs then StartTiming pid s1
            else Inl AssertFailed)
      else StartTiming pid (s\<lparr>
        mAbort := False, mEnded := False, mProcCount := maxProcs,
        mRegisters := replicate maxProcs Map.empty,
        mRegisterCount := replicate maxProcs 0,
        mThreadRegisterLocation := replicate maxProcs [],
        mPutRequests := ResetResize maxProcs [],
        mGetRequests := ResetResize maxProcs [],
        mTmpSendRequests := ResetResize maxProcs [],
        mTmpSendBuffers := ResetResize maxProcs [],
        mSendRequests := replicate maxProcs [],
        mSendBuffers := replicate maxProcs [],
        mPushRequests := replicate maxProcs [],
        mPopRequests := replicate maxProcs [],
        mPutBufferStacks := replicate maxProcs [],
        mNewTagSize := replicate maxProcs 0,
        mSendReceivedIndex := replicate maxProcs 0,
        mStartTimes := replicate maxProcs 0\<rparr>))"

text \<open>
  \<open>SyncPoint\<close> waits on the barrier with the abort flag.  Modelled from the spec
  (section 4.2; the barrier classes are not among the sources): when the flag is
  observed the caller raises the abort error, otherwise the call returns once all P
  participants have arrived.
\<close>

definition SyncPoint :: "bsp \<Rightarrow> error + bsp" where
  "SyncPoint s = (if mAbort s then Inl BspAbort else Inr s)"

text \<open>
  \<open>VAbort\<close> and \<open>End\<close> change the state before they can throw, so they return the state
  they leave behind together with the error, if any.
\<close>

definition VAbort :: "string \<Rightarrow> bsp \<Rightarrow> error option \<times> bsp" where
  "VAbort msg s =
     (let s1 = s\<lparr>mAbort := True\<rparr>;
          s2 = s1\<lparr>stderr_lines := stderr_lines s1 @ [msg]\<rparr>
      in (if mAbort s2 then Some BspAbort else None, s2))"

definition End :: "nat \<Rightarrow> bsp \<Rightarrow> error option \<times> bsp" where
  "End pid s =
     (let s1 = s\<lparr>mEnded := True\<rparr>
      in case SyncPoint s1 of Inl e \<Rightarrow> (Some e, s1) | Inr s2 \<Rightarrow> (None, s2))"

definition PushReg :: "nat \<Rightarrow> addr \<Rightarrow> nat \<Rightarrow> bsp \<Rightarrow> error + bsp" where
  "PushReg pid ident sz s =
     (if \<not> (pid < mProcCount s \<and> pid < length (mRegisters s) \<and> pid < length (mRegisterCount s)
            \<and> pid < length (mThreadRegisterLocation s))
      then Inl AssertFailed
      else if \<not> pid < length (mPushRequests s) then Inl OutOfBounds
      else Inr (s\<lparr>
        mPushRequests := (mPushRequests s)[pid := mPushRequests s ! pid @
          [\<lparr>pushRegister = ident, registerInfo = \<lparr>reg_size = sz, registerCount = mRegisterCount s ! pid\<rparr>\<rparr>]],
        mRegisterCount := (mRegisterCount s)[pid := mRegisterCount s ! pid + 1]\<rparr>))"

definition PopReg :: "nat \<Rightarrow> addr \<Rightarrow> bsp \<Rightarrow> error + bsp" where
  "PopReg pid ident s =
     (if \<not> (pid < mProcCount s \<and> pid < length (mRegisters s) \<and> pid < length (mRegisterCount s)
            \<and> pid < length (mThreadRegisterLocation s))
      then Inl AssertFailed
      else if \<not> pid < length (mPopRequests s) then Inl OutOfBounds
      else Inr (s\<lparr>mPopRequests := (mPopRequests s)[pid := mPopRequests s ! pid @ [\<lparr>popRegister = ident\<rparr>]]\<rparr>))"

text \<open>
  \<open>std::map::operator[]\<close> inserts a value-initialised \<open>RegisterInfo\<close> when the key is
  absent; \<open>map_index\<close> returns the map after the access and the value found.
\<close>

definition map_index :: "(addr \<rightharpoonup> RegisterInfo) \<Rightarrow> addr \<Rightarrow> (addr \<rightharpoonup> RegisterInfo) \<times> RegisterInfo" where
  "map_index m k = (case m k of
      Some v \<Rightarrow> (m, v)
    | None \<Rightarrow> (m(k \<mapsto> \<lparr>reg_size = 0, registerCount = 0\<rparr>), \<lparr>reg_size = 0, registerCount = 0\<rparr>))"

definition Put :: "nat \<Rightarrow> nat \<Rightarrow> addr \<Rightarrow> addr \<Rightarrow> int \<Rightarrow> nat \<Rightarrow> bsp \<Rightarrow> error + bsp" where
  "Put tpid pid src dst offset nbytes s =
     (if \<not> (tpid < mProcCount s \<and> pid < mProcCount s) then Inl AssertFailed
      else if \<not> sized s then Inl OutOfBounds
      else
        let (regs_t, info) = map_index (mRegisters s ! tpid) dst;
            globalId = registerCount info;
            s1 = s\<lparr>mRegisters := (mRegisters s)[tpid := regs_t]\<rparr>
        in if \<not> globalId < length (mThreadRegisterLocation s1 ! pid) then Inl AssertFailed
        else
          let loc = mThreadRegisterLocation s1 ! pid ! globalId;
              (regs_p, info_p) = map_index (mRegisters s1 ! pid) loc;
              s2 = s1\<lparr>mRegisters := (mRegisters s1)[pid := regs_p]\<rparr>
          in if \<not> nbytes \<le> reg_size info_p then Inl AssertFailed
          else
            let (stack, bufferLocation) = Alloc nbytes src (memory s2) (mPutBufferStacks s2 ! tpid);
                queue = GetQueueFromMe pid tpid (mPutRequests s2)
            in Inr (s2\<lparr>
                 mPutBufferStacks := (mPutBufferStacks s2)[tpid := stack],
                 mPutRequests := SetQueueFromMe pid tpid
                   (queue @ [\<lparr>put_bufferLocation = bufferLocation,
                              put_destination = nat (int loc + offset),
                              put_size = nbytes\<rparr>]) (mPutRequests s2)\<rparr>))"

definition Get :: "nat \<Rightarrow> nat \<Rightarrow> addr \<Rightarrow> int \<Rightarrow> addr \<Rightarrow> nat \<Rightarrow> bsp \<Rightarrow> error + bsp" where
  "Get tpid pid src offset dst nbytes s =
     (if \<not> (pid < mProcCount s \<and> tpid < mProcCount s) then Inl AssertFailed
      else if \<not> sized s then Inl OutOfBounds
      else
        let (regs_t, info) = map_index (mRegisters s ! tpid) src;
            globalId = registerCount info;
            s1 = s\<lparr>mRegisters := (mRegisters s)[tpid := regs_t]\<rparr>
        in if \<not> globalId < length (mThreadRegisterLocation s1 ! pid) then Inl OutOfBounds
        else
          let loc = mThreadRegisterLocation s1 ! pid ! globalId;
              (regs_p, info_p) = map_index (mRegisters s1 ! pid) loc;
              s2 = s1\<lparr>mRegisters := (mRegisters s1)[pid := regs_p]\<rparr>
          in if \<not> nbytes \<le> reg_size info_p then Inl AssertFailed
          else
            let queue = GetQueueFromMe pid tpid (mGetRequests s2)
            in Inr (s2\<lparr>mGetRequests := SetQueueFromMe pid tpid
                   (queue @ [\<lparr>get_destination = dst,
                              get_source = nat (int loc + offset),
                              get_size = nbytes\<rparr>]) (mGetRequests s2)\<rparr>))"

definition Send :: "nat \<Rightarrow> nat \<Rightarrow> addr \<Rightarrow> addr \<Rightarrow> nat \<Rightarrow> bsp \<Rightarrow> error + bsp" where
  "Send tpid pid tag payload sz s =
     (if \<not> (pid < mProcCount s \<and> tpid < mProcCount s) then Inl AssertFailed
      else if \<not> sized s then Inl OutOfBounds
      else if mNewTagSize s ! tpid \<noteq> mTagSize s then Inl AssertFailed
      else
        let tmpSendBuffer = GetQueueFromMe pid tpid (mTmpSendBuffers s);
            (b1, bufferLocation) = Alloc sz payload (memory s) tmpSendBuffer;
            (b2, tagLocation) = Alloc (mTagSize s) tag (memory s) b1;
            queue = GetQueueFromMe pid tpid (mTmpSendRequests s)
        in Inr (s\<lparr>
             mTmpSendBuffers := SetQueueFromMe pid tpid b2 (mTmpSendBuffers s),
             mTmpSendRequests := SetQueueFromMe pid tpid
               (queue @ [\<lparr>send_bufferLocation = bufferLocation, send_bufferSize = sz,
                          send_tagLocation = tagLocation, send_tagSize = mTagSize s\<rparr>])
               (mTmpSendRequests s)\<rparr>))"

definition Move :: "nat \<Rightarrow> addr \<Rightarrow> nat \<Rightarrow> bsp \<Rightarrow> error + bsp" where
  "Move pid payload max_copy_size_in s =
     (if \<not> (pid < length (mSendRequests s) \<and> pid < length (mSendReceivedIndex s)
            \<and> pid < length (mSendBuffers s)) then Inl OutOfBounds
      else if mSendRequests s ! pid = [] then Inr s
      else
        let index = mSendReceivedIndex s ! pid;
            s1 = s\<lparr>mSendReceivedIndex := (mSendReceivedIndex s)[pid := index + 1]\<rparr>
        in if \<not> index < length (mSendRequests s1 ! pid) then Inl OutOfBounds
        else
          let request = mSendRequests s1 ! pid ! index;
              copySize = min max_copy_size_in (send_bufferSize request)
          in Inr (s1\<lparr>memory :=
               Extract (send_bufferLocation request) copySize payload (mSendBuffers s1 ! pid) (memory s1)\<rparr>))"

definition SetTagsize :: "nat \<Rightarrow> nat \<Rightarrow> bsp \<Rightarrow> error + (bsp \<times> nat)" where
  "SetTagsize pid sz s =
     (let newSize = sz;
          out = mTagSize s
      in if \<not> pid < length (mNewTagSize s) then Inl OutOfBounds
         else Inr (s\<lparr>mNewTagSize := (mNewTagSize s)[pid := newSize]\<rparr>, out))"

definition GetTag :: "nat \<Rightarrow> addr \<Rightarrow> bsp \<Rightarrow> error + (bsp \<times> nat)" where
  "GetTag pid tag s =
     (if \<not> (pid < length (mSendRequests s) \<and> pid < length (mSendReceivedIndex s)
            \<and> pid < length (mSendBuffers s)) then Inl OutOfBounds
      else
        let status = SIZE_MAX;
            index = mSendReceivedIndex s ! pid;
            sendQueue = mSendRequests s ! pid
        in if sendQueue \<noteq> [] \<and> index < length sendQueue then
             let sendRequest = sendQueue ! index;
                 status = send_bufferSize sendRequest
             in if send_tagSize (sendQueue ! index) \<noteq> mTagSize s then Inl AssertFailed
                else Inr (s\<lparr>memory := Extract (send_tagLocation sendRequest) (send_tagSize sendRequest)
                                 tag (mSendBuffers s ! pid) (memory s)\<rparr>, status)
           else Inr (s, status))"

text \<open>
  \<open>QSize\<close>: \<open>packets\<close> must not be null (asserted); \<open>accumulatedSize\<close> may be, which is the
  flag \<open>acc\<close>.  The result is the pair of values written through the two pointers.
\<close>

definition QSize :: "nat \<Rightarrow> bool \<Rightarrow> bsp \<Rightarrow> error + (nat \<times> nat option)" where
  "QSize pid acc s =
     (if \<not> pid < length (mSendRequests s) then Inl OutOfBounds
      else
        let packets = 0;
            accumulatedSize = (if acc then Some 0 else None);
            sendQueue = mSendRequests s ! pid;
            packets = packets + length sendQueue;
            accumulatedSize = (case accumulatedSize of
                None \<Rightarrow> None
              | Some a \<Rightarrow> Some (fold (\<lambda>request a. a + send_bufferSize request) sendQueue a))
        in Inr (packets, accumulatedSize))"

section \<open>The steps of Sync\<close>

definition TagSizeUpdate :: "nat \<Rightarrow> bsp \<Rightarrow> bsp" where
  "TagSizeUpdate pid s =
     (if pid = 0 \<and> mNewTagSize s ! 0 \<noteq> mTagSize s then s\<lparr>mTagSize := mNewTagSize s ! 0\<rparr> else s)"

definition ProcessPushRequests :: "nat \<Rightarrow> bsp \<Rightarrow> bsp" where
  "ProcessPushRequests pid s =
     (if mPushRequests s ! pid \<noteq> [] then
        let s1 = fold (\<lambda>pushRequest s.
                   s\<lparr>mRegisters := (mRegisters s)[pid :=
                        (mRegisters s ! pid)(pushRegister pushRequest \<mapsto> registerInfo pushRequest)],
                     mThreadRegisterLocation := (mThreadRegisterLocation s)[pid :=
                        mThreadRegisterLocation s ! pid @ [pushRegister pushRequest]]\<rparr>)
                 (mPushRequests s ! pid) s
        in s1\<lparr>mPushRequests := (mPushRequests s1)[pid := []]\<rparr>
      else s)"

definition ProcessPutRequests_owner :: "nat \<Rightarrow> nat \<Rightarrow> bsp \<Rightarrow> bsp" where
  "ProcessPutRequests_owner pid owner s =
     (let putQueue = GetQueueToMe owner pid (mPutRequests s)
      in if putQueue \<noteq> [] then
           let s1 = fold (\<lambda>putRequest s.
                      s\<lparr>memory := Extract (put_bufferLocation putRequest) (put_size putRequest)
                                    (put_destination putRequest) (mPutBufferStacks s ! owner) (memory s)\<rparr>)
                    (rev putQueue) s
           in s1\<lparr>mPutRequests := SetQueueToMe owner pid [] (mPutRequests s1)\<rparr>
         else s)"

definition ProcessPutRequests :: "nat \<Rightarrow> bsp \<Rightarrow> bsp" where
  "ProcessPutRequests pid s = fold (ProcessPutRequests_owner pid) [0..<mProcCount s] s"

text \<open>
  The loop of \<open>ProcessSendRequests\<close> carries the local variable \<open>offset\<close> next to the
  state.
\<close>

definition shift_request :: "nat \<Rightarrow> SendRequest \<Rightarrow> SendRequest" where
  "shift_request offset sendRequest =
     sendRequest\<lparr>send_bufferLocation := send_bufferLocation sendRequest + offset,
                 send_tagLocation := send_tagLocation sendRequest + offset\<rparr>"

definition ProcessSendRequests_owner :: "nat \<Rightarrow> nat \<Rightarrow> nat \<times> bsp \<Rightarrow> nat \<times> bsp" where
  "ProcessSendRequests_owner pid owner os =
     (let offset = fst os; s = snd os;
          tmpQueue = GetQueueToMe owner pid (mTmpSendRequests s)
      in if tmpQueue \<noteq> [] then
           let tmpQueue = map (shift_request offset) tmpQueue;
               s1 = s\<lparr>mSendRequests := (mSendRequests s)[pid := mSendRequests s ! pid @ tmpQueue]\<rparr>;
               s2 = s1\<lparr>mTmpSendRequests := SetQueueToMe owner pid [] (mTmpSendRequests s1)\<rparr>;
               tmpBuffer = GetQueueToMe owner pid (mTmpSendBuffers s2);
               offset = offset + Size tmpBuffer;
               s3 = s2\<lparr>mSendBuffers := (mSendBuffers s2)[pid := Merge (mSendBuffers s2 ! pid) tmpBuffer]\<rparr>;
               s4 = s3\<lparr>mTmpSendBuffers := SetQueueToMe owner pid (Clear tmpBuffer) (mTmpSendBuffers s3)\<rparr>
           in (offset, s4)
         else (offset, s))"

definition ProcessSendRequests :: "nat \<Rightarrow> bsp \<Rightarrow> bsp" where
  "ProcessSendRequests pid s =
     (let s1 = s\<lparr>mSendRequests := (mSendRequests s)[pid := []]\<rparr>;
          s2 = s1\<lparr>mSendReceivedIndex := (mSendReceivedIndex s1)[pid := 0]\<rparr>;
          offset = 0;
          s3 = s2\<lparr>mSendBuffers := (mSendBuffers s2)[pid := Clear (mSendBuffers s2 ! pid)]\<rparr>
      in snd (fold (ProcessSendRequests_owner pid) [0..<mProcCount s3] (offset, s3)))"

definition ProcessPopRequests :: "nat \<Rightarrow> bsp \<Rightarrow> bsp" where
  "ProcessPopRequests pid s =
     (if mPopRequests s ! pid \<noteq> [] then
        let s1 = fold (\<lambda>popRequest s.
                   s\<lparr>mRegisters := (mRegisters s)[pid :=
                        (mRegisters s ! pid)(popRegister popRequest := None)]\<rparr>)
                 (mPopRequests s ! pid) s
        in s1\<lparr>mPopRequests := (mPopRequests s1)[pid := []]\<rparr>
      else s)"

definition ProcessGetRequests_owner :: "nat \<Rightarrow> nat \<Rightarrow> bsp \<Rightarrow> bsp" where
  "ProcessGetRequests_owner pid owner s =
     (let getQueue = GetQueueToMe owner pid (mGetRequests s);
          s1 = fold (\<lambda>request s.
                 let (stack, bufferLocation) =
                       Alloc (get_size request) (get_source request) (memory s) (mPutBufferStacks s ! pid);
                     s' = s\<lparr>mPutBufferStacks := (mPutBufferStacks s)[pid := stack]\<rparr>
                 in s'\<lparr>mPutRequests := SetQueueFromMe owner pid
                        (GetQueueFromMe owner pid (mPutRequests s') @
                           [\<lparr>put_bufferLocation = bufferLocation,
                             put_destination = get_destination request,
                             put_size = get_size request\<rparr>])
                        (mPutRequests s')\<rparr>)
               (rev getQueue) s
      in s1\<lparr>mGetRequests := SetQueueToMe owner pid [] (mGetRequests s1)\<rparr>)"

definition ProcessGetRequests :: "nat \<Rightarrow> bsp \<Rightarrow> bsp" where
  "ProcessGetRequests pid s = fold (ProcessGetRequests_owner pid) [0..<mProcCount s] s"

definition ClearPutBuffer :: "nat \<Rightarrow> bsp \<Rightarrow> bsp" where
  "ClearPutBuffer pid s = s\<lparr>mPutBufferStacks := (mPutBufferStacks s)[pid := Clear (mPutBufferStacks s ! pid)]\<rparr>"

subsection \<open>The body of Sync, statement by statement\<close>

text \<open>
  \<open>Sync_body\<close> lists the statements of \<open>BSP::Sync\<close> in program order; every process
  executes this list.  \<open>exec_instr\<close> gives the effect of one statement executed by
  process \<open>pid\<close>; a \<open>SyncPoint\<close> changes no data.
\<close>

datatype instr =
    DoSyncPoint
  | DoTagSizeUpdate
  | DoProcessGetRequests
  | DoProcessPopRequests
  | DoProcessSendRequests
  | DoProcessPutRequests
  | DoClearPutBuffer
  | DoProcessPushRequests

definition Sync_body :: "instr list" where
  "Sync_body =
     [DoSyncPoint,
      DoTagSizeUpdate, DoProcessGetRequests,
      DoSyncPoint,
      DoProcessPopRequests, DoProcessSendRequests, DoProcessPutRequests,
      DoSyncPoint,
      DoClearPutBuffer, DoProcessPushRequests,
      DoSyncPoint]"

fun exec_instr :: "instr \<Rightarrow> nat \<Rightarrow> bsp \<Rightarrow> bsp" where
  "exec_instr DoSyncPoint pid s = s"
| "exec_instr DoTagSizeUpdate pid s = TagSizeUpdate pid s"
| "exec_instr DoProcessGetRequests pid s = ProcessGetRequests pid s"
| "exec_instr DoProcessPopRequests pid s = ProcessPopRequests pid s"
| "exec_instr DoProcessSendRequests pid s = ProcessSendRequests pid s"
| "exec_instr DoProcessPutRequests pid s = ProcessPutRequests pid s"
| "exec_instr DoClearPutBuffer pid s = ClearPutBuffer pid s"
| "exec_instr DoProcessPushRequests pid s = ProcessPushRequests pid s"

subsection \<open>Sync of all processes, one schedule\<close>

text \<open>
  Between two barriers each process runs its statements on its own; \<open>all_procs\<close> runs
  the processes one after the other, in the order 0..P-1.  \<open>run_body\<close> walks through
  the body: it collects the statements up to the next \<open>SyncPoint\<close>, runs them for all
  processes, and passes the barrier, which throws when the abort flag is set.  \<open>Sync\<close>
  is the collective execution of \<open>BSP::Sync\<close> by all P processes under this schedule.
\<close>

definition all_procs :: "instr list \<Rightarrow> bsp \<Rightarrow> bsp" where
  "all_procs seg s = fold (\<lambda>pid s. fold (\<lambda>i. exec_instr i pid) seg s) [0..<mProcCount s] s"

fun run_body :: "instr list \<Rightarrow> instr list \<Rightarrow> bsp \<Rightarrow> error + bsp" where
  "run_body [] seg s = Inr (all_procs seg s)"
| "run_body (DoSyncPoint # is) seg s =
     (case SyncPoint (all_procs seg s) of Inl e \<Rightarrow> Inl e | Inr s' \<Rightarrow> run_body is [] s')"
| "run_body (i # is) seg s = run_body is (seg @ [i]) s"

definition Sync :: "bsp \<Rightarrow> error + bsp" where
  "Sync s = run_body Sync_body [] s"

subsection \<open>Sync of all processes, every schedule\<close>

text \<open>
  A configuration holds, for every process, its position in \<open>Sync_body\<close> and whether it
  runs, waits at the barrier or has left \<open>Sync\<close> with the abort error; the shared
  state; and the log of the statements executed so far, each with the process that
  executed it.  A process executes the statement at its position; at a \<open>SyncPoint\<close> it
  starts to wait.  Modelled from the spec (section 4.2; the barrier classes are not
  among the sources): the barrier releases its waiters when all P participants wait,
  and a waiter that observes the abort flag raises the abort error.
\<close>

datatype pstatus = Running | Waiting | Thrown

record config =
  pc :: "nat list"
  status :: "pstatus list"
  shared :: bsp
  events :: "(nat \<times> instr) list"

definition init_config :: "bsp \<Rightarrow> config" where
  "init_config s = \<lparr> pc = replicate (mProcCount s) 0, status = replicate (mProcCount s) Running,
     shared = s, events = [] \<rparr>"

inductive sync_step :: "config \<Rightarrow> config \<Rightarrow> bool" where
  execute:
    "p < length (pc c) \<Longrightarrow> status c ! p = Running \<Longrightarrow> pc c ! p < length Sync_body \<Longrightarrow>
     Sync_body ! (pc c ! p) = i \<Longrightarrow> i \<noteq> DoSyncPoint \<Longrightarrow>
     sync_step c (c\<lparr>pc := (pc c)[p := Suc (pc c ! p)],
                    shared := exec_instr i p (shared c),
                    events := events c @ [(p, i)]\<rparr>)"
| arrive:
    "p < length (pc c) \<Longrightarrow> status c ! p = Running \<Longrightarrow> pc c ! p < length Sync_body \<Longrightarrow>
     Sync_body ! (pc c ! p) = DoSyncPoint \<Longrightarrow>
     sync_step c (c\<lparr>status := (status c)[p := Waiting]\<rparr>)"
| release:
    "list_all (\<lambda>st. st = Waiting) (status c) \<Longrightarrow> \<not> mAbort (shared c) \<Longrightarrow>
     sync_step c (c\<lparr>pc := map Suc (pc c), status := map (\<lambda>_. Running) (status c)\<rparr>)"
| throw:
    "p < length (pc c) \<Longrightarrow> status c ! p = Waiting \<Longrightarrow> mAbort (shared c) \<Longrightarrow>
     sync_step c (c\<lparr>status := (status c)[p := Thrown]\<rparr>)"

definition reachable :: "bsp \<Rightarrow> config \<Rightarrow> bool" where
  "reachable s c = sync_step\<^sup>*\<^sup>* (init_config s) c"

section \<open>Notions used to state the properties\<close>

text \<open>Sequencing of operations that can fail: the first error ends the run.\<close>

definition then_do :: "error + 'a \<Rightarrow> ('a \<Rightarrow> error + 'b) \<Rightarrow> error + 'b" where
  "then_do r f = (case r of Inl e \<Rightarrow> Inl e | Inr x \<Rightarrow> f x)"

text \<open>
  The next delivered send of a process: the entry of its delivered-send queue at the
  consumption index, if there is one.
\<close>

definition next_send :: "nat \<Rightarrow> bsp \<Rightarrow> SendRequest option" where
  "next_send pid s =
     (let sendQueue = mSendRequests s ! pid; index = mSendReceivedIndex s ! pid
      in if index < length sendQueue then Some (sendQueue ! index) else None)"

text \<open>
  The outbound sends of a process, in the words of the specification: the requests it
  has staged for any target since the last Sync.
\<close>

definition outbound_sends :: "nat \<Rightarrow> bsp \<Rightarrow> SendRequest list" where
  "outbound_sends pid s = concat (mTmpSendRequests s ! pid)"

text \<open>
  The life cycle of the runtime as a history of calls, made one after another by the
  threads of the program.  The abort error that \<open>End\<close>, \<open>Abort\<close> and \<open>Sync\<close> raise is an
  exception the caller can catch, so the history goes on in the state the call left
  behind; a failed assertion or an access out of bounds ends the program, and the
  history with it.
\<close>

datatype call =
  CallInit "entry option" | CallBegin nat nat | CallEnd nat | CallAbort string | CallSync

fun do_call :: "call \<Rightarrow> bsp \<Rightarrow> error + bsp" where
  "do_call (CallInit e) s = Inr (fst (Init e s))"
| "do_call (CallBegin pid maxProcs) s = Begin pid maxProcs s"
| "do_call (CallEnd pid) s = Inr (snd (End pid s))"
| "do_call (CallAbort msg) s = Inr (snd (VAbort msg s))"
| "do_call CallSync s =
     (case Sync s of Inl e \<Rightarrow> (if e = BspAbort then Inr s else Inl e) | Inr s' \<Rightarrow> Inr s')"

fun run_calls :: "call list \<Rightarrow> bsp \<Rightarrow> error + bsp" where
  "run_calls [] s = Inr s"
| "run_calls (c # cs) s = (case do_call c s of Inl e \<Rightarrow> Inl e | Inr s' \<Rightarrow> run_calls cs s')"

text \<open>
  When a Begin/End cycle has ended cleanly, in the words of the specification: the run
  that process 0 began last with \<open>Begin(P)\<close> ended cleanly if all of its P processes have
  called \<open>End\<close> since and none has called \<open>Abort\<close>.  \<open>cycle_of\<close> follows the history and
  keeps, for the run begun last, P, the processes that have called \<open>End\<close> and whether
  \<open>Abort\<close> was called; before the first \<open>Begin\<close> there is no run that could have ended
  otherwise than cleanly.
\<close>

datatype cycle = NoCycle | Cycle nat "nat list" bool

fun track :: "call \<Rightarrow> cycle \<Rightarrow> cycle" where
  "track (CallBegin pid maxProcs) c = (if pid = 0 then Cycle maxProcs [] False else c)"
| "track (CallEnd pid) (Cycle P ended aborted) = Cycle P (pid # ended) aborted"
| "track (CallAbort msg) (Cycle P ended aborted) = Cycle P ended True"
| "track c cyc = cyc"

definition cycle_of :: "call list \<Rightarrow> cycle" where
  "cycle_of cs = fold track cs NoCycle"

fun ended_cleanly :: "cycle \<Rightarrow> bool" where
  "ended_cleanly NoCycle = True"
| "ended_cleanly (Cycle P ended aborted) = (\<not> aborted \<and> list_all (\<lambda>p. p \<in> set ended) [0..<P])"

text \<open>
  What \<open>Init\<close> tests instead, told from the history: \<open>untouched_run b cs\<close> says that after
  the calls \<open>cs\<close> there is a run that process 0 has begun and in which, since then, no
  process at all has called \<open>End\<close> or \<open>Abort\<close>; \<open>b\<close> says whether this was so before \<open>cs\<close>.
\<close>

fun untouched_run :: "bool \<Rightarrow> call list \<Rightarrow> bool" where
  "untouched_run b [] = b"
| "untouched_run b (CallInit e # cs) = untouched_run b cs"
| "untouched_run b (CallBegin pid maxProcs # cs) = untouched_run (if pid = 0 then True else b) cs"
| "untouched_run b (CallEnd pid # cs) = untouched_run False cs"
| "untouched_run b (CallAbort msg # cs) = untouched_run False cs"
| "untouched_run b (CallSync # cs) = untouched_run b cs"

definition init_warning :: "string list" where
  "init_warning =
     [''Warning: initialisation data corresponding to another BSP run found;'',
      ''         and this other run did not terminate (gracefully).'']"

subsection \<open>A concrete run\<close>

text \<open>
  Two processes; address \<open>a\<close> of the example memory holds the byte \<open>a mod 256\<close>.  Process 0
  sends the three bytes at addresses 10..12 to process 1 with an empty tag.
\<close>

definition example_memory :: "addr \<Rightarrow> byte" where
  "example_memory = (\<lambda>a. word_of_nat a)"

definition begun :: "error + bsp" where
  "begun = Begin 0 2 (BSP_ctor example_memory)"

definition one_sent :: "error + bsp" where
  "one_sent = then_do begun (Send 0 1 0 10 3)"

definition one_delivered :: "error + bsp" where
  "one_delivered = then_do one_sent Sync"

definition one_moved :: "error + bsp" where
  "one_moved = then_do one_delivered (Move 1 100 8)"

text \<open>
  Both processes register a region of four bytes (at address 100 on process 0, at
  address 200 on process 1) and synchronise; then process 0 pops its region.
\<close>

definition registered :: "error + bsp" where
  "registered = then_do (then_do (then_do begun (PushReg 0 100 4)) (PushReg 1 200 4)) Sync"

definition pop_pending :: "error + bsp" where
  "pop_pending = then_do registered (PopReg 0 100)"

text \<open>
  Both processes propose a tag size of eight bytes and synchronise; \<open>propose\<close> is
  \<open>SetTagsize\<close> without the value it returns.
\<close>

definition propose :: "nat \<Rightarrow> nat \<Rightarrow> bsp \<Rightarrow> error + bsp" where
  "propose pid sz s = then_do (SetTagsize pid sz s) (\<lambda>r. Inr (fst r))"

definition tagged :: "error + bsp" where
  "tagged = then_do (then_do (then_do begun (propose 0 8)) (propose 1 8)) Sync"

subsection \<open>The order of the steps of Sync\<close>

text \<open>
  \<open>events_of p es\<close> are the statements process \<open>p\<close> has executed, in order.  Among the
  first \<open>n\<close> statements of \<open>Sync_body\<close>, \<open>barriers_passed n\<close> counts the barriers and
  \<open>executed n\<close> lists the other statements.  \<open>stage\<close> numbers the barrier a statement
  comes after.
\<close>

definition events_of :: "nat \<Rightarrow> (nat \<times> instr) list \<Rightarrow> instr list" where
  "events_of p es = map snd (filter (\<lambda>e. fst e = p) es)"

definition barriers_passed :: "nat \<Rightarrow> nat" where
  "barriers_passed n = length (filter (\<lambda>i. i = DoSyncPoint) (take n Sync_body))"

definition executed :: "nat \<Rightarrow> instr list" where
  "executed n = filter (\<lambda>i. i \<noteq> DoSyncPoint) (take n Sync_body)"

fun stage :: "instr \<Rightarrow> nat" where
  "stage DoSyncPoint = 0"
| "stage DoTagSizeUpdate = 1"
| "stage DoProcessGetRequests = 1"
| "stage DoProcessPopRequests = 2"
| "stage DoProcessSendRequests = 2"
| "stage DoProcessPutRequests = 2"
| "stage DoClearPutBuffer = 3"
| "stage DoProcessPushRequests = 3"

text \<open>
  What holds in every configuration reached from \<open>init_config\<close>: each process has
  executed the statements before its position, all processes have passed the same
  number of barriers, and a waiting process stands at a barrier.
\<close>

definition sync_inv :: "nat \<Rightarrow> config \<Rightarrow> bool" where
  "sync_inv P c =
     (length (pc c) = P \<and> length (status c) = P \<and>
      (\<forall>p<P. pc c ! p \<le> length Sync_body \<and>
             events_of p (events c) = executed (pc c ! p) \<and>
             (status c ! p = Waiting \<longrightarrow>
                pc c ! p < length Sync_body \<and> Sync_body ! (pc c ! p) = DoSyncPoint)) \<and>
      (\<forall>p<P. \<forall>q<P. barriers_passed (pc c ! p) = barriers_passed (pc c ! q)))"

definition log_ordered :: "nat \<Rightarrow> (nat \<times> instr) list \<Rightarrow> bool" where
  "log_ordered P es =
     (\<forall>es1 p i es2. es = es1 @ (p, i) # es2 \<longrightarrow>
        (\<forall>q<P. \<forall>j. j \<noteq> DoSyncPoint \<and> stage j < stage i \<longrightarrow> (q, j) \<in> set es1) \<and>
        (i = DoProcessPushRequests \<longrightarrow> (p, DoClearPutBuffer) \<in> set es1))"

text \<open>
  The configuration in which the schedule of \<open>Sync\<close> ends: every process has left
  \<open>Sync\<close>, and the log lists, phase by phase, the statements of process 0, then those of
  process 1, and so on.
\<close>

definition segment_events :: "nat \<Rightarrow> instr list \<Rightarrow> (nat \<times> instr) list" where
  "segment_events P seg = concat (map (\<lambda>pid. map (Pair pid) seg) [0..<P])"

definition final_config :: "bsp \<Rightarrow> config" where
  "final_config s =
     \<lparr> pc = replicate (mProcCount s) (length Sync_body),
       status = replicate (mProcCount s) Running,
       shared = all_procs [DoClearPutBuffer, DoProcessPushRequests]
                  (all_procs [DoProcessPopRequests, DoProcessSendRequests, DoProcessPutRequests]
                     (all_procs [DoTagSizeUpdate, DoProcessGetRequests] s)),
       events = segment_events (mProcCount s) [DoTagSizeUpdate, DoProcessGetRequests] @
                segment_events (mProcCount s) [DoProcessPopRequests, DoProcessSendRequests, DoProcessPutRequests] @
                segment_events (mProcCount s) [DoClearPutBuffer, DoProcessPushRequests] \<rparr>"

text \<open>
  The configuration in which all \<open>P\<close> processes run and stand before statement \<open>n\<close> of
  \<open>Sync_body\<close>.
\<close>

definition standing_at :: "nat \<Rightarrow> nat \<Rightarrow> bsp \<Rightarrow> (nat \<times> instr) list \<Rightarrow> config" where
  "standing_at P n sh es = \<lparr> pc = replicate P n, status = replicate P Running, shared = sh, events = es \<rparr>"

subsection \<open>Messages staged and delivered\<close>

text \<open>
  A send request denotes a message: the payload bytes and the tag bytes it points to in
  an arena.  \<open>staged src dst s\<close> are the messages process \<open>src\<close> has staged for process
  \<open>dst\<close>, \<open>delivered dst s\<close> the messages in the delivered-send queue of \<open>dst\<close>.  A request
  lies \<open>in_arena\<close> when its payload and its tag lie within the arena.
\<close>

definition message :: "StackAllocator \<Rightarrow> SendRequest \<Rightarrow> byte list \<times> byte list" where
  "message buf r =
     (stack_bytes buf (send_bufferLocation r) (send_bufferSize r),
      stack_bytes buf (send_tagLocation r) (send_tagSize r))"

definition staged :: "nat \<Rightarrow> nat \<Rightarrow> bsp \<Rightarrow> (byte list \<times> byte list) list" where
  "staged src dst s =
     map (message (GetQueueFromMe dst src (mTmpSendBuffers s))) (GetQueueFromMe dst src (mTmpSendRequests s))"

definition delivered :: "nat \<Rightarrow> bsp \<Rightarrow> (byte list \<times> byte list) list" where
  "delivered dst s = map (message (mSendBuffers s ! dst)) (mSendRequests s ! dst)"

definition in_arena :: "StackAllocator \<Rightarrow> SendRequest \<Rightarrow> bool" where
  "in_arena buf r =
     (send_bufferLocation r + send_bufferSize r \<le> length buf \<and>
      send_tagLocation r + send_tagSize r \<le> length buf)"

definition staging_ok :: "bsp \<Rightarrow> bool" where
  "staging_ok s =
     (\<forall>src<mProcCount s. \<forall>dst<mProcCount s.
        list_all (in_arena (GetQueueFromMe dst src (mTmpSendBuffers s)))
                 (GetQueueFromMe dst src (mTmpSendRequests s)))"

text \<open>
  The sends of a superstep: each call with the calling process, the target, the
  addresses of tag and payload, and the payload size; \<open>issue\<close> performs them in order.
\<close>

record send_call =
  caller :: nat
  target :: nat
  tag_addr :: addr
  payload_addr :: addr
  payload_size :: nat

fun issue :: "send_call list \<Rightarrow> bsp \<Rightarrow> error + bsp" where
  "issue [] s = Inr s"
| "issue (c # cs) s =
     then_do (Send (caller c) (target c) (tag_addr c) (payload_addr c) (payload_size c) s) (issue cs)"

definition sent_message :: "bsp \<Rightarrow> send_call \<Rightarrow> byte list \<times> byte list" where
  "sent_message s c =
     (read_bytes (memory s) (payload_addr c) (payload_size c),
      read_bytes (memory s) (tag_addr c) (mTagSize s))"

text \<open>
  The invariant of the loop of \<open>ProcessSendRequests pid\<close> started in state \<open>s\<close>, before
  the iteration for owner \<open>n\<close>: the delivered messages are those staged by the owners
  below \<open>n\<close>, the delivered requests lie in the receive arena, whose size is \<open>offset\<close>, and
  only the staging queues of the owners below \<open>n\<close> for \<open>pid\<close> have changed (they are
  empty).
\<close>

definition delivery_inv :: "nat \<Rightarrow> bsp \<Rightarrow> nat \<Rightarrow> nat \<times> bsp \<Rightarrow> bool" where
  "delivery_inv pid s n os =
     (let offset = fst os; t = snd os; P = mProcCount s in
      mProcCount t = P \<and> square P (mTmpSendRequests t) \<and> square P (mTmpSendBuffers t) \<and>
      length (mSendRequests t) = P \<and> length (mSendBuffers t) = P \<and>
      offset = length (mSendBuffers t ! pid) \<and>
      delivered pid t = concat (map (\<lambda>src. staged src pid s) [0..<n]) \<and>
      list_all (in_arena (mSendBuffers t ! pid)) (mSendRequests t ! pid) \<and>
      (\<forall>src<P. \<forall>d<P. d \<noteq> pid \<or> n \<le> src \<longrightarrow>
         mTmpSendRequests t ! src ! d = mTmpSendRequests s ! src ! d \<and>
         mTmpSendBuffers t ! src ! d = mTmpSendBuffers s ! src ! d) \<and>
      (\<forall>src<n. mTmpSendRequests t ! src ! pid = []) \<and>
      (\<forall>d<P. d \<noteq> pid \<longrightarrow>
         mSendRequests t ! d = mSendRequests s ! d \<and> mSendBuffers t ! d = mSendBuffers s ! d))"

text \<open>
  The invariant of the delivery of sends by all processes, one after the other, started
  in state \<open>s\<close>: the processes below \<open>m\<close> have their messages delivered and their
  staging queues emptied, the staging queues for the others are untouched.
\<close>

definition delivered_upto :: "bsp \<Rightarrow> nat \<Rightarrow> bsp \<Rightarrow> bool" where
  "delivered_upto s m t =
     (let P = mProcCount s in
      mProcCount t = P \<and> square P (mTmpSendRequests t) \<and> square P (mTmpSendBuffers t) \<and>
      length (mSendRequests t) = P \<and> length (mSendBuffers t) = P \<and>
      (\<forall>d<m. delivered d t = concat (map (\<lambda>src. staged src d s) [0..<P]) \<and>
             list_all (in_arena (mSendBuffers t ! d)) (mSendRequests t ! d) \<and>
             (\<forall>src<P. mTmpSendRequests t ! src ! d = [])) \<and>
      (\<forall>src<P. \<forall>d<P. m \<le> d \<longrightarrow>
         mTmpSendRequests t ! src ! d = mTmpSendRequests s ! src ! d \<and>
         mTmpSendBuffers t ! src ! d = mTmpSendBuffers s ! src ! d))"

text \<open>
  Four sends issued after the tag size has become eight bytes: process 0 sends three
  bytes to process 1, process 1 sends two bytes to itself, then process 0 sends one byte
  to process 1 and one byte to itself.
\<close>

definition example_sends :: "send_call list" where
  "example_sends =
     [\<lparr>caller = 0, target = 1, tag_addr = 50, payload_addr = 10, payload_size = 3\<rparr>,
      \<lparr>caller = 1, target = 1, tag_addr = 60, payload_addr = 20, payload_size = 2\<rparr>,
      \<lparr>caller = 0, target = 1, tag_addr = 70, payload_addr = 30, payload_size = 1\<rparr>,
      \<lparr>caller = 0, target = 0, tag_addr = 80, payload_addr = 40, payload_size = 1\<rparr>]"

subsection \<open>Puts and the bytes they write\<close>

text \<open>
  A Put request \<open>covers\<close> the addresses from its destination up to its size; for such
  an address, \<open>put_value\<close> is the byte the request holds for it in the arena.  A Get
  request covers the addresses it will be written to.  \<open>may_write s owner pid a\<close> says
  that at the next Sync the data of some request between \<open>owner\<close> (whose arena holds
  the bytes) and \<open>pid\<close> (who copies them out) can go to address \<open>a\<close>: a Put of \<open>owner\<close> to
  \<open>pid\<close>, or a Get of \<open>pid\<close> from \<open>owner\<close>.
\<close>

definition covers :: "PutRequest \<Rightarrow> addr \<Rightarrow> bool" where
  "covers r a = (put_destination r \<le> a \<and> a < put_destination r + put_size r)"

definition get_covers :: "GetRequest \<Rightarrow> addr \<Rightarrow> bool" where
  "get_covers g a = (get_destination g \<le> a \<and> a < get_destination g + get_size g)"

definition put_value :: "StackAllocator \<Rightarrow> PutRequest \<Rightarrow> addr \<Rightarrow> byte" where
  "put_value arena r a = arena ! (put_bufferLocation r + (a - put_destination r))"

definition put_in_arena :: "StackAllocator \<Rightarrow> PutRequest \<Rightarrow> bool" where
  "put_in_arena arena r = (put_bufferLocation r + put_size r \<le> length arena)"

definition may_write :: "bsp \<Rightarrow> nat \<Rightarrow> nat \<Rightarrow> addr \<Rightarrow> bool" where
  "may_write s owner pid a =
     (list_ex (\<lambda>r. covers r a) (mPutRequests s ! owner ! pid) \<or>
      list_ex (\<lambda>g. get_covers g a) (mGetRequests s ! pid ! owner))"

text \<open>
  What the conversion of Gets into Puts (the first phase of Sync) does to a state \<open>s\<close>,
  as far as Puts are concerned: it leaves the memory alone, extends put arenas and put
  queues at their ends, and adds no possible write: where a request between two
  processes can write afterwards, one could write before.
\<close>

definition put_wf :: "bsp \<Rightarrow> bool" where
  "put_wf s =
     (square (mProcCount s) (mPutRequests s) \<and> square (mProcCount s) (mGetRequests s) \<and>
      length (mPutBufferStacks s) = mProcCount s)"

definition gets_converted :: "bsp \<Rightarrow> bsp \<Rightarrow> bool" where
  "gets_converted s t =
     (put_wf s \<and> put_wf t \<and> mProcCount t = mProcCount s \<and> memory t = memory s \<and>
      (\<forall>ow<mProcCount s. \<exists>ext. mPutBufferStacks t ! ow = mPutBufferStacks s ! ow @ ext) \<and>
      (\<forall>ow<mProcCount s. \<forall>p<mProcCount s.
         (\<exists>xs. mPutRequests t ! ow ! p = mPutRequests s ! ow ! p @ xs) \<and>
         (\<forall>a. may_write t ow p a \<longrightarrow> may_write s ow p a)))"

text \<open>
  After the registration, process 0 puts the byte at address 10 and then the byte at
  address 20 into the first byte of the region registered by process 1 (address 200).
\<close>

definition two_puts :: "error + bsp" where
  "two_puts = then_do (then_do registered (Put 0 1 10 100 0 1)) (Put 0 1 20 100 0 1)"

section \<open>Frame properties of the steps of Sync\<close>

text \<open>
  Each step of Sync changes a few fields of the state and leaves the others alone.  The
  loops are folds, so a field that no iteration changes is unchanged by the loop.
\<close>

lemma fold_preserves: "(\<And>x s. g (f x s) = g s) \<Longrightarrow> g (fold f xs s) = g s"
  by (induction xs arbitrary: s) auto

lemmas fold_keeps =
  fold_preserves[where g=mPutBufferStacks]
  fold_preserves[where g=mPutRequests]
  fold_preserves[where g=mGetRequests]
  fold_preserves[where g=mTmpSendRequests]
  fold_preserves[where g=mTmpSendBuffers]
  fold_preserves[where g=mSendBuffers]
  fold_preserves[where g=mSendRequests]
  fold_preserves[where g=mSendReceivedIndex]
  fold_preserves[where g=mPushRequests]
  fold_preserves[where g=mPopRequests]
  fold_preserves[where g=mRegisterCount]
  fold_preserves[where g=mRegisters]
  fold_preserves[where g=mThreadRegisterLocation]
  fold_preserves[where g=mEntry]
  fold_preserves[where g=mProcCount]
  fold_preserves[where g=mNewTagSize]
  fold_preserves[where g=mTagSize]
  fold_preserves[where g=mEnded]
  fold_preserves[where g=mAbort]
  fold_preserves[where g=memory]
  fold_preserves[where g=stderr_lines]
  fold_preserves[where g=mStartTimes]
  fold_preserves[where g=clock]

lemmas fold_keeps_snd =
  fold_preserves[where g="\<lambda>os. mPutBufferStacks (snd os)"]
  fold_preserves[where g="\<lambda>os. mPutRequests (snd os)"]
  fold_preserves[where g="\<lambda>os. mGetRequests (snd os)"]
  fold_preserves[where g="\<lambda>os. mTmpSendRequests (snd os)"]
  fold_preserves[where g="\<lambda>os. mTmpSendBuffers (snd os)"]
  fold_preserves[where g="\<lambda>os. mSendBuffers (snd os)"]
  fold_preserves[where g="\<lambda>os. mSendRequests (snd os)"]
  fold_preserves[where g="\<lambda>os. mSendReceivedIndex (snd os)"]
  fold_preserves[where g="\<lambda>os. mPushRequests (snd os)"]
  fold_preserves[where g="\<lambda>os. mPopRequests (snd os)"]
  fold_preserves[where g="\<lambda>os. mRegisterCount (snd os)"]
  fold_preserves[where g="\<lambda>os. mRegisters (snd os)"]
  fold_preserves[where g="\<lambda>os. mThreadRegisterLocation (snd os)"]
  fold_preserves[where g="\<lambda>os. mEntry (snd os)"]
  fold_preserves[where g="\<lambda>os. mProcCount (snd os)"]
  fold_preserves[where g="\<lambda>os. mNewTagSize (snd os)"]
  fold_preserves[where g="\<lambda>os. mTagSize (snd os)"]
  fold_preserves[where g="\<lambda>os. mEnded (snd os)"]
  fold_preserves[where g="\<lambda>os. mAbort (snd os)"]
  fold_preserves[where g="\<lambda>os. memory (snd os)"]
  fold_preserves[where g="\<lambda>os. stderr_lines (snd os)"]
  fold_preserves[where g="\<lambda>os. mStartTimes (snd os)"]
  fold_preserves[where g="\<lambda>os. clock (snd os)"]

lemma TagSizeUpdate_frame [simp]:
  "mPutBufferStacks (TagSizeUpdate pid s) = mPutBufferStacks s"
  "mPutRequests (TagSizeUpdate pid s) = mPutRequests s"
  "mGetRequests (TagSizeUpdate pid s) = mGetRequests s"
  "mTmpSendRequests (TagSizeUpdate pid s) = mTmpSendRequests s"
  "mTmpSendBuffers (TagSizeUpdate pid s) = mTmpSendBuffers s"
  "mSendBuffers (TagSizeUpdate pid s) = mSendBuffers s"
  "mSendRequests (TagSizeUpdate pid s) = mSendRequests s"
  "mSendReceivedIndex (TagSizeUpdate pid s) = mSendReceivedIndex s"
  "mPushRequests (TagSizeUpdate pid s) = mPushRequests s"
  "mPopRequests (TagSizeUpdate pid s) = mPopRequests s"
  "mRegisterCount (TagSizeUpdate pid s) = mRegisterCount s"
  "mRegisters (TagSizeUpdate pid s) = mRegisters s"
  "mThreadRegisterLocation (TagSizeUpdate pid s) = mThreadRegisterLocation s"
  "mEntry (TagSizeUpdate pid s) = mEntry s"
  "mProcCount (TagSizeUpdate pid s) = mProcCount s"
  "mNewTagSize (TagSizeUpdate pid s) = mNewTagSize s"
  "mEnded (TagSizeUpdate pid s) = mEnded s"
  "mAbort (TagSizeUpdate pid s) = mAbort s"
  "memory (TagSizeUpdate pid s) = memory s"
  "stderr_lines (TagSizeUpdate pid s) = stderr_lines s"
  by (simp_all add: TagSizeUpdate_def)

lemma ClearPutBuffer_frame [simp]:
  "mPutRequests (ClearPutBuffer pid s) = mPutRequests s"
  "mGetRequests (ClearPutBuffer pid s) = mGetRequests s"
  "mTmpSendRequests (ClearPutBuffer pid s) = mTmpSendRequests s"
  "mTmpSendBuffers (ClearPutBuffer pid s) = mTmpSendBuffers s"
  "mSendBuffers (ClearPutBuffer pid s) = mSendBuffers s"
  "mSendRequests (ClearPutBuffer pid s) = mSendRequests s"
  "mSendReceivedIndex (ClearPutBuffer pid s) = mSendReceivedIndex s"
  "mPushRequests (ClearPutBuffer pid s) = mPushRequests s"
  "mPopRequests (ClearPutBuffer pid s) = mPopRequests s"
  "mRegisterCount (ClearPutBuffer pid s) = mRegisterCount s"
  "mRegisters (ClearPutBuffer pid s) = mRegisters s"
  "mThreadRegisterLocation (ClearPutBuffer pid s) = mThreadRegisterLocation s"
  "mEntry (ClearPutBuffer pid s) = mEntry s"
  "mProcCount (ClearPutBuffer pid s) = mProcCount s"
  "mNewTagSize (ClearPutBuffer pid s) = mNewTagSize s"
  "mTagSize (ClearPutBuffer pid s) = mTagSize s"
  "mEnded (ClearPutBuffer pid s) = mEnded s"
  "mAbort (ClearPutBuffer pid s) = mAbort s"
  "memory (ClearPutBuffer pid s) = memory s"
  "stderr_lines (ClearPutBuffer pid s) = stderr_lines s"
  by (simp_all add: ClearPutBuffer_def)

lemma ProcessPushRequests_frame [simp]:
  "mPutBufferStacks (ProcessPushRequests pid s) = mPutBufferStacks s"
  "mPutRequests (ProcessPushRequests pid s) = mPutRequests s"
  "mGetRequests (ProcessPushRequests pid s) = mGetRequests s"
  "mTmpSendRequests (ProcessPushRequests pid s) = mTmpSendRequests s"
  "mTmpSendBuffers (ProcessPushRequests pid s) = mTmpSendBuffers s"
  "mSendBuffers (ProcessPushRequests pid s) = mSendBuffers s"
  "mSendRequests (ProcessPushRequests pid s) = mSendRequests s"
  "mSendReceivedIndex (ProcessPushRequests pid s) = mSendReceivedIndex s"
  "mPopRequests (ProcessPushRequests pid s) = mPopRequests s"
  "mRegisterCount (ProcessPushRequests pid s) = mRegisterCount s"
  "mEntry (ProcessPushRequests pid s) = mEntry s"
  "mProcCount (ProcessPushRequests pid s) = mProcCount s"
  "mNewTagSize (ProcessPushRequests pid s) = mNewTagSize s"
  "mTagSize (ProcessPushRequests pid s) = mTagSize s"
  "mEnded (ProcessPushRequests pid s) = mEnded s"
  "mAbort (ProcessPushRequests pid s) = mAbort s"
  "memory (ProcessPushRequests pid s) = memory s"
  "stderr_lines (ProcessPushRequests pid s) = stderr_lines s"
  by (simp_all add: ProcessPushRequests_def Let_def fold_keeps)

lemma ProcessPopRequests_frame [simp]:
  "mPutBufferStacks (ProcessPopRequests pid s) = mPutBufferStacks s"
  "mPutRequests (ProcessPopRequests pid s) = mPutRequests s"
  "mGetRequests (ProcessPopRequests pid s) = mGetRequests s"
  "mTmpSendRequests (ProcessPopRequests pid s) = mTmpSendRequests s"
  "mTmpSendBuffers (ProcessPopRequests pid s) = mTmpSendBuffers s"
  "mSendBuffers (ProcessPopRequests pid s) = mSendBuffers s"
  "mSendRequests (ProcessPopRequests pid s) = mSendRequests s"
  "mSendReceivedIndex (ProcessPopRequests pid s) = mSendReceivedIndex s"
  "mPushRequests (ProcessPopRequests pid s) = mPushRequests s"
  "mRegisterCount (ProcessPopRequests pid s) = mRegisterCount s"
  "mThreadRegisterLocation (ProcessPopRequests pid s) = mThreadRegisterLocation s"
  "mEntry (ProcessPopRequests pid s) = mEntry s"
  "mProcCount (ProcessPopRequests pid s) = mProcCount s"
  "mNewTagSize (ProcessPopRequests pid s) = mNewTagSize s"
  "mTagSize (ProcessPopRequests pid s) = mTagSize s"
  "mEnded (ProcessPopRequests pid s) = mEnded s"
  "mAbort (ProcessPopRequests pid s) = mAbort s"
  "memory (ProcessPopRequests pid s) = memory s"
  "stderr_lines (ProcessPopRequests pid s) = stderr_lines s"
  by (simp_all add: ProcessPopRequests_def Let_def fold_keeps)

lemma ProcessPutRequests_owner_frame [simp]:
  "mPutBufferStacks (ProcessPutRequests_owner pid owner s) = mPutBufferStacks s"
  "mGetRequests (ProcessPutRequests_owner pid owner s) = mGetRequests s"
  "mTmpSendRequests (ProcessPutRequests_owner pid owner s) = mTmpSendRequests s"
  "mTmpSendBuffers (ProcessPutRequests_owner pid owner s) = mTmpSendBuffers s"
  "mSendBuffers (ProcessPutRequests_owner pid owner s) = mSendBuffers s"
  "mSendRequests (ProcessPutRequests_owner pid owner s) = mSendRequests s"
  "mSendReceivedIndex (ProcessPutRequests_owner pid owner s) = mSendReceivedIndex s"
  "mPushRequests (ProcessPutRequests_owner pid owner s) = mPushRequests s"
  "mPopRequests (ProcessPutRequests_owner pid owner s) = mPopRequests s"
  "mRegisterCount (ProcessPutRequests_owner pid owner s) = mRegisterCount s"
  "mRegisters (ProcessPutRequests_owner pid owner s) = mRegisters s"
  "mThreadRegisterLocation (ProcessPutRequests_owner pid owner s) = mThreadRegisterLocation s"
  "mEntry (ProcessPutRequests_owner pid owner s) = mEntry s"
  "mProcCount (ProcessPutRequests_owner pid owner s) = mProcCount s"
  "mNewTagSize (ProcessPutRequests_owner pid owner s) = mNewTagSize s"
  "mTagSize (ProcessPutRequests_owner pid owner s) = mTagSize s"
  "mEnded (ProcessPutRequests_owner pid owner s) = mEnded s"
  "mAbort (ProcessPutRequests_owner pid owner s) = mAbort s"
  "stderr_lines (ProcessPutRequests_owner pid owner s) = stderr_lines s"
  by (simp_all add: ProcessPutRequests_owner_def Let_def fold_keeps)

lemma ProcessPutRequests_frame [simp]:
  "mPutBufferStacks (ProcessPutRequests pid s) = mPutBufferStacks s"
  "mGetRequests (ProcessPutRequests pid s) = mGetRequests s"
  "mTmpSendRequests (ProcessPutRequests pid s) = mTmpSendRequests s"
  "mTmpSendBuffers (ProcessPutRequests pid s) = mTmpSendBuffers s"
  "mSendBuffers (ProcessPutRequests pid s) = mSendBuffers s"
  "mSendRequests (ProcessPutRequests pid s) = mSendRequests s"
  "mSendReceivedIndex (ProcessPutRequests pid s) = mSendReceivedIndex s"
  "mPushRequests (ProcessPutRequests pid s) = mPushRequests s"
  "mPopRequests (ProcessPutRequests pid s) = mPopRequests s"
  "mRegisterCount (ProcessPutRequests pid s) = mRegisterCount s"
  "mRegisters (ProcessPutRequests pid s) = mRegisters s"
  "mThreadRegisterLocation (ProcessPutRequests pid s) = mThreadRegisterLocation s"
  "mEntry (ProcessPutRequests pid s) = mEntry s"
  "mProcCount (ProcessPutRequests pid s) = mProcCount s"
  "mNewTagSize (ProcessPutRequests pid s) = mNewTagSize s"
  "mTagSize (ProcessPutRequests pid s) = mTagSize s"
  "mEnded (ProcessPutRequests pid s) = mEnded s"
  "mAbort (ProcessPutRequests pid s) = mAbort s"
  "stderr_lines (ProcessPutRequests pid s) = stderr_lines s"
  by (simp_all add: ProcessPutRequests_def fold_keeps)

lemma ProcessSendRequests_frame [simp]:
  "mPutBufferStacks (ProcessSendRequests pid s) = mPutBufferStacks s"
  "mPutRequests (ProcessSendRequests pid s) = mPutRequests s"
  "mGetRequests (ProcessSendRequests pid s) = mGetRequests s"
  "mPushRequests (ProcessSendRequests pid s) = mPushRequests s"
  "mPopRequests (ProcessSendRequests pid s) = mPopRequests s"
  "mRegisterCount (ProcessSendRequests pid s) = mRegisterCount s"
  "mRegisters (ProcessSendRequests pid s) = mRegisters s"
  "mThreadRegisterLocation (ProcessSendRequests pid s) = mThreadRegisterLocation s"
  "mEntry (ProcessSendRequests pid s) = mEntry s"
  "mProcCount (ProcessSendRequests pid s) = mProcCount s"
  "mNewTagSize (ProcessSendRequests pid s) = mNewTagSize s"
  "mTagSize (ProcessSendRequests pid s) = mTagSize s"
  "mEnded (ProcessSendRequests pid s) = mEnded s"
  "mAbort (ProcessSendRequests pid s) = mAbort s"
  "memory (ProcessSendRequests pid s) = memory s"
  "stderr_lines (ProcessSendRequests pid s) = stderr_lines s"
  by (simp_all add: ProcessSendRequests_def ProcessSendRequests_owner_def Let_def fold_keeps_snd)

lemma ProcessGetRequests_owner_frame [simp]:
  "mTmpSendRequests (ProcessGetRequests_owner pid owner s) = mTmpSendRequests s"
  "mTmpSendBuffers (ProcessGetRequests_owner pid owner s) = mTmpSendBuffers s"
  "mSendBuffers (ProcessGetRequests_owner pid owner s) = mSendBuffers s"
  "mSendRequests (ProcessGetRequests_owner pid owner s) = mSendRequests s"
  "mSendReceivedIndex (ProcessGetRequests_owner pid owner s) = mSendReceivedIndex s"
  "mPushRequests (ProcessGetRequests_owner pid owner s) = mPushRequests s"
  "mPopRequests (ProcessGetRequests_owner pid owner s) = mPopRequests s"
  "mRegisterCount (ProcessGetRequests_owner pid owner s) = mRegisterCount s"
  "mRegisters (ProcessGetRequests_owner pid owner s) = mRegisters s"
  "mThreadRegisterLocation (ProcessGetRequests_owner pid owner s) = mThreadRegisterLocation s"
  "mEntry (ProcessGetRequests_owner pid owner s) = mEntry s"
  "mProcCount (ProcessGetRequests_owner pid owner s) = mProcCount s"
  "mNewTagSize (ProcessGetRequests_owner pid owner s) = mNewTagSize s"
  "mTagSize (ProcessGetRequests_owner pid owner s) = mTagSize s"
  "mEnded (ProcessGetRequests_owner pid owner s) = mEnded s"
  "mAbort (ProcessGetRequests_owner pid owner s) = mAbort s"
  "memory (ProcessGetRequests_owner pid owner s) = memory s"
  "stderr_lines (ProcessGetRequests_owner pid owner s) = stderr_lines s"
  by (simp_all add: ProcessGetRequests_owner_def Let_def split_def fold_keeps)

lemma ProcessGetRequests_frame [simp]:
  "mTmpSendRequests (ProcessGetRequests pid s) = mTmpSendRequests s"
  "mTmpSendBuffers (ProcessGetRequests pid s) = mTmpSendBuffers s"
  "mSendBuffers (ProcessGetRequests pid s) = mSendBuffers s"
  "mSendRequests (ProcessGetRequests pid s) = mSendRequests s"
  "mSendReceivedIndex (ProcessGetRequests pid s) = mSendReceivedIndex s"
  "mPushRequests (ProcessGetRequests pid s) = mPushRequests s"
  "mPopRequests (ProcessGetRequests pid s) = mPopRequests s"
  "mRegisterCount (ProcessGetRequests pid s) = mRegisterCount s"
  "mRegisters (ProcessGetRequests pid s) = mRegisters s"
  "mThreadRegisterLocation (ProcessGetRequests pid s) = mThreadRegisterLocation s"
  "mEntry (ProcessGetRequests pid s) = mEntry s"
  "mProcCount (ProcessGetRequests pid s) = mProcCount s"
  "mNewTagSize (ProcessGetRequests pid s) = mNewTagSize s"
  "mTagSize (ProcessGetRequests pid s) = mTagSize s"
  "mEnded (ProcessGetRequests pid s) = mEnded s"
  "mAbort (ProcessGetRequests pid s) = mAbort s"
  "memory (ProcessGetRequests pid s) = memory s"
  "stderr_lines (ProcessGetRequests pid s) = stderr_lines s"
  by (simp_all add: ProcessGetRequests_def fold_keeps)

lemma exec_instr_frame [simp]:
  "mProcCount (exec_instr i pid s) = mProcCount s"
  "mAbort (exec_instr i pid s) = mAbort s"
  "mNewTagSize (exec_instr i pid s) = mNewTagSize s"
  "mEnded (exec_instr i pid s) = mEnded s"
  "mEntry (exec_instr i pid s) = mEntry s"
  "mRegisterCount (exec_instr i pid s) = mRegisterCount s"
  "stderr_lines (exec_instr i pid s) = stderr_lines s"
  by (cases i; simp)+

lemma all_procs_frame [simp]:
  "mProcCount (all_procs seg s) = mProcCount s"
  "mAbort (all_procs seg s) = mAbort s"
  "mNewTagSize (all_procs seg s) = mNewTagSize s"
  "mEnded (all_procs seg s) = mEnded s"
  "mEntry (all_procs seg s) = mEntry s"
  "mRegisterCount (all_procs seg s) = mRegisterCount s"
  "stderr_lines (all_procs seg s) = stderr_lines s"
  by (simp_all add: all_procs_def fold_keeps)

lemma fold_skip: "fold (\<lambda>x s. s) xs s = s"
  by (induction xs) auto

lemma all_procs_Nil [simp]: "all_procs [] s = s"
  by (simp add: all_procs_def fold_skip)

lemma Sync_unfold:
  "Sync s = (if mAbort s then Inl BspAbort
     else Inr (all_procs [DoClearPutBuffer, DoProcessPushRequests]
            (all_procs [DoProcessPopRequests, DoProcessSendRequests, DoProcessPutRequests]
              (all_procs [DoTagSizeUpdate, DoProcessGetRequests] s))))"
  by (simp add: Sync_def Sync_body_def SyncPoint_def)


lemma fold_add_sizes: "fold (\<lambda>request a. a + f request) xs (a::nat) = a + sum_list (map f xs)"
  by (induction xs arbitrary: a) auto

text \<open>
  The state after \<open>Begin(2)\<close> by process 0 on a fresh runtime, written out; the runs below
  are evaluated from it.
\<close>

lemma begun_code [code]:
  "begun = Inr ((BSP_ctor example_memory)\<lparr>
        mAbort := False, mEnded := False, mProcCount := 2,
        mRegisters := replicate 2 Map.empty,
        mRegisterCount := replicate 2 0,
        mThreadRegisterLocation := replicate 2 [],
        mPutRequests := ResetResize 2 [],
        mGetRequests := ResetResize 2 [],
        mTmpSendRequests := ResetResize 2 [],
        mTmpSendBuffers := ResetResize 2 [],
        mSendRequests := replicate 2 [],
        mSendBuffers := replicate 2 [],
        mPushRequests := replicate 2 [],
        mPopRequests := replicate 2 [],
        mPutBufferStacks := replicate 2 [],
        mNewTagSize := replicate 2 0,
        mSendReceivedIndex := replicate 2 0,
        mStartTimes := (replicate 2 0)[0 := 0]\<rparr>)"
  by (simp add: begun_def Begin_def StartTiming_def gPID_unset_def BSP_ctor_def)

section \<open>QSize\<close>

text \<open>
  Claim C4, as amended.  \<open>QSize\<close> reads \<open>mSendRequests[ProcId()]\<close>, the queue of sends
  delivered to the calling process at the last Sync: it writes the number of entries of
  that queue into \<open>packets\<close> and, when \<open>accumulatedSize\<close> is not null, the sum of their
  payload sizes into \<open>accumulatedSize\<close>.  Entries already consumed by \<open>Move\<close> are
  counted too.
\<close>
theorem QSize_counts_delivered:
  assumes "pid < length (mSendRequests s)"
  shows "QSize pid acc s =
     Inr (length (mSendRequests s ! pid),
          if acc then Some (sum_list (map send_bufferSize (mSendRequests s ! pid))) else None)"
  using assms by (simp add: QSize_def Let_def fold_add_sizes)

theorem QSize_counts_delivered_witness:
  "\<not> isl one_delivered \<and> 1 < length (mSendRequests (projr one_delivered)) \<and>
   QSize 1 True (projr one_delivered) = Inr (1, Some 3)"
proof -
  have 1: "\<not> isl one_delivered" "1 < length (mSendRequests (projr one_delivered))"
    "length (mSendRequests (projr one_delivered) ! 1) = 1"
    "sum_list (map send_bufferSize (mSendRequests (projr one_delivered) ! 1)) = 3"
    by code_simp+
  show ?thesis using QSize_counts_delivered[OF 1(2), of True] 1 by simp
qed

text \<open>
  Claim C4 as stated fails: after process 0 has staged one send of three bytes (and
  before any Sync) its outbound queue holds one message, yet \<open>QSize\<close> reports no message
  and no bytes.
\<close>

theorem QSize_outbound_counterexample:
  "\<not> isl one_sent \<and> length (outbound_sends 0 (projr one_sent)) = 1 \<and>
   sum_list (map send_bufferSize (outbound_sends 0 (projr one_sent))) = 3 \<and>
   QSize 0 True (projr one_sent) = Inr (0, Some 0) \<and>
   QSize 0 True (projr one_sent) \<noteq>
     Inr (length (outbound_sends 0 (projr one_sent)),
          Some (sum_list (map send_bufferSize (outbound_sends 0 (projr one_sent)))))"
  by code_simp

section \<open>GetTag\<close>

lemma GetTag_none:
  assumes "pid < length (mSendRequests s)" "pid < length (mSendReceivedIndex s)"
    "pid < length (mSendBuffers s)" "next_send pid s = None"
  shows "GetTag pid tag s = Inr (s, SIZE_MAX)"
proof -
  from assms(4) have "\<not> mSendReceivedIndex s ! pid < length (mSendRequests s ! pid)"
    by (simp add: next_send_def Let_def split: if_splits)
  then show ?thesis using assms(1-3) by (simp add: GetTag_def Let_def)
qed

lemma GetTag_some:
  assumes "pid < length (mSendRequests s)" "pid < length (mSendReceivedIndex s)"
    "pid < length (mSendBuffers s)" "next_send pid s = Some r" "send_tagSize r = mTagSize s"
  shows "GetTag pid tag s =
     Inr (s\<lparr>memory := write_bytes (memory s) tag
                (stack_bytes (mSendBuffers s ! pid) (send_tagLocation r) (send_tagSize r))\<rparr>,
          send_bufferSize r)"
proof -
  from assms(4) have i: "mSendReceivedIndex s ! pid < length (mSendRequests s ! pid)"
    and r: "r = mSendRequests s ! pid ! (mSendReceivedIndex s ! pid)"
    by (simp_all add: next_send_def Let_def split: if_splits)
  from i have ne: "mSendRequests s ! pid \<noteq> []" by auto
  show ?thesis using assms(1-3,5) i ne unfolding r by (simp add: GetTag_def Let_def Extract_def)
qed

text \<open>
  Claim C5, as amended.  \<open>GetTag\<close> looks at the next delivered send of the calling
  process, the entry of its delivered-send queue at the consumption index.  If there is
  one (and its tag size is the current tag size, which \<open>GetTag\<close> asserts), \<open>status\<close>
  becomes its payload size and its tag bytes are copied to \<open>tag\<close>; nothing else
  changes.  If there is none, because the queue is empty or because all its entries
  have been consumed, \<open>status\<close> becomes \<open>SIZE_MAX\<close> and nothing changes.  Hence, for
  payloads smaller than \<open>SIZE_MAX\<close> bytes, \<open>status\<close> is \<open>SIZE_MAX\<close> if and only if there is
  no next delivered send.
\<close>

theorem GetTag_status:
  assumes "pid < length (mSendRequests s)" "pid < length (mSendReceivedIndex s)"
    "pid < length (mSendBuffers s)"
    "\<forall>r. next_send pid s = Some r \<longrightarrow> send_tagSize r = mTagSize s \<and> send_bufferSize r < SIZE_MAX"
  shows "\<exists>s' status. GetTag pid tag s = Inr (s', status) \<and>
     (status = SIZE_MAX \<longleftrightarrow> next_send pid s = None) \<and>
     (next_send pid s = None \<longrightarrow> s' = s) \<and>
     (\<forall>r. next_send pid s = Some r \<longrightarrow>
        status = send_bufferSize r \<and>
        s' = s\<lparr>memory := write_bytes (memory s) tag
                (stack_bytes (mSendBuffers s ! pid) (send_tagLocation r) (send_tagSize r))\<rparr>)"
proof (cases "next_send pid s")
  case None
  with GetTag_none[OF assms(1-3) None, of tag] show ?thesis by simp
next
  case (Some r)
  with assms(4) have ok: "send_tagSize r = mTagSize s" "send_bufferSize r < SIZE_MAX" by auto
  with GetTag_some[OF assms(1-3) Some ok(1), of tag] Some show ?thesis by simp
qed

theorem GetTag_status_witness:
  "\<not> isl one_delivered \<and> next_send 1 (projr one_delivered) \<noteq> None \<and>
   (\<exists>s'. GetTag 1 200 (projr one_delivered) = Inr (s', 3)) \<and>
   \<not> isl one_moved \<and> next_send 1 (projr one_moved) = None \<and>
   GetTag 1 200 (projr one_moved) = Inr (projr one_moved, SIZE_MAX)"
proof -
  let ?s = "projr one_delivered" and ?t = "projr one_moved"
  have d: "\<not> isl one_delivered" "1 < length (mSendRequests ?s)" "1 < length (mSendReceivedIndex ?s)"
    "1 < length (mSendBuffers ?s)" "next_send 1 ?s \<noteq> None"
    "send_bufferSize (the (next_send 1 ?s)) = 3" "send_tagSize (the (next_send 1 ?s)) = 0"
    "mTagSize ?s = 0"
    by code_simp+
  have m: "\<not> isl one_moved" "1 < length (mSendRequests ?t)" "1 < length (mSendReceivedIndex ?t)"
    "1 < length (mSendBuffers ?t)" "next_send 1 ?t = None"
    by code_simp+
  have "(3::nat) < SIZE_MAX" by (simp add: SIZE_MAX_def)
  then have "\<forall>r. next_send 1 ?s = Some r \<longrightarrow> send_tagSize r = mTagSize ?s \<and> send_bufferSize r < SIZE_MAX"
    using d(5-8) by auto
  from GetTag_status[OF d(2-4) this, of 200]
  have 1: "\<exists>s'. GetTag 1 200 ?s = Inr (s', 3)" using d(5,6) by auto
  have "\<forall>r. next_send 1 ?t = Some r \<longrightarrow> send_tagSize r = mTagSize ?t \<and> send_bufferSize r < SIZE_MAX"
    using m by simp
  from GetTag_status[OF m(2-4) this, of 200]
  have 2: "GetTag 1 200 ?t = Inr (?t, SIZE_MAX)" using m(5) by auto
  show ?thesis using d(1,5) m(1,5) 1 2 by simp
qed

text \<open>
  Claim C5 as stated fails: once process 1 has consumed its only delivered send, its
  delivered-send queue is not empty (it still holds that entry), and \<open>GetTag\<close> sets
  \<open>status\<close> to \<open>SIZE_MAX\<close>.
\<close>

theorem GetTag_consumed_counterexample:
  "\<not> isl one_moved \<and> mSendRequests (projr one_moved) ! 1 \<noteq> [] \<and>
   snd (projr (GetTag 1 200 (projr one_moved))) = SIZE_MAX \<and>
   \<not> (snd (projr (GetTag 1 200 (projr one_moved))) = SIZE_MAX \<longleftrightarrow>
        mSendRequests (projr one_moved) ! 1 = [])"
proof -
  let ?t = "projr one_moved"
  have m: "\<not> isl one_moved" "1 < length (mSendRequests ?t)" "1 < length (mSendReceivedIndex ?t)"
    "1 < length (mSendBuffers ?t)" "next_send 1 ?t = None" "mSendRequests ?t ! 1 \<noteq> []"
    by code_simp+
  from GetTag_none[OF m(2-5), of 200] m(1,6) show ?thesis by simp
qed

section \<open>Move\<close>

lemma Move_empty:
  assumes "pid < length (mSendRequests s)" "pid < length (mSendReceivedIndex s)"
    "pid < length (mSendBuffers s)" "mSendRequests s ! pid = []"
  shows "Move pid payload max_n s = Inr s"
  using assms by (simp add: Move_def)

lemma Move_past_end:
  assumes "pid < length (mSendRequests s)" "pid < length (mSendReceivedIndex s)"
    "pid < length (mSendBuffers s)" "mSendRequests s ! pid \<noteq> []"
    "\<not> mSendReceivedIndex s ! pid < length (mSendRequests s ! pid)"
  shows "Move pid payload max_n s = Inl OutOfBounds"
  using assms by (simp add: Move_def Let_def)

text \<open>
  Claim C6.  When the calling process has a next delivered send \<open>r\<close> (the entry of its
  delivered-send queue at the consumption index) whose payload lies within its receive
  arena, \<open>Move\<close> copies the first \<open>min max_n (payload size)\<close> bytes of the payload of \<open>r\<close> to
  \<open>payload\<close>, which are exactly that many bytes, and advances the consumption index by
  one; nothing else changes.
\<close>

theorem Move_consumes_head:
  assumes "pid < length (mSendRequests s)" "pid < length (mSendReceivedIndex s)"
    "pid < length (mSendBuffers s)" "next_send pid s = Some r"
    "send_bufferLocation r + send_bufferSize r \<le> length (mSendBuffers s ! pid)"
  shows "Move pid payload max_n s =
     Inr (s\<lparr>mSendReceivedIndex := (mSendReceivedIndex s)[pid := mSendReceivedIndex s ! pid + 1],
            memory := write_bytes (memory s) payload
              (take (min max_n (send_bufferSize r))
                 (stack_bytes (mSendBuffers s ! pid) (send_bufferLocation r) (send_bufferSize r)))\<rparr>) \<and>
     length (take (min max_n (send_bufferSize r))
        (stack_bytes (mSendBuffers s ! pid) (send_bufferLocation r) (send_bufferSize r))) =
       min max_n (send_bufferSize r)"
proof -
  from assms(4) have i: "mSendReceivedIndex s ! pid < length (mSendRequests s ! pid)"
    and r: "r = mSendRequests s ! pid ! (mSendReceivedIndex s ! pid)"
    by (simp_all add: next_send_def Let_def split: if_splits)
  from i have ne: "mSendRequests s ! pid \<noteq> []" by auto
  have t: "stack_bytes st loc (min m n) = take (min m n) (stack_bytes st loc n)" for st :: StackAllocator and loc m n
    by (simp add: stack_bytes_def)
  have 1: "Move pid payload max_n s =
     Inr (s\<lparr>mSendReceivedIndex := (mSendReceivedIndex s)[pid := mSendReceivedIndex s ! pid + 1],
            memory := write_bytes (memory s) payload
              (take (min max_n (send_bufferSize r))
                 (stack_bytes (mSendBuffers s ! pid) (send_bufferLocation r) (send_bufferSize r)))\<rparr>)"
    using assms(1-3) i ne unfolding r t[symmetric] by (simp add: Move_def Let_def Extract_def)
  have 2: "length (take (min max_n (send_bufferSize r))
        (stack_bytes (mSendBuffers s ! pid) (send_bufferLocation r) (send_bufferSize r))) =
       min max_n (send_bufferSize r)"
    using assms(5) by (simp add: stack_bytes_def)
  from 1 2 show ?thesis by blast
qed

theorem Move_consumes_head_witness:
  "\<not> isl one_delivered \<and> next_send 1 (projr one_delivered) \<noteq> None \<and>
   mSendReceivedIndex (projr one_delivered) ! 1 = 0 \<and>
   \<not> isl (Move 1 100 2 (projr one_delivered)) \<and>
   mSendReceivedIndex (projr (Move 1 100 2 (projr one_delivered))) ! 1 = 1 \<and>
   map (memory (projr (Move 1 100 2 (projr one_delivered)))) [99..<104] = [99, 10, 11, 102, 103]"
proof -
  let ?s = "projr one_delivered"
  have d: "\<not> isl one_delivered" "1 < length (mSendRequests ?s)" "1 < length (mSendReceivedIndex ?s)"
    "1 < length (mSendBuffers ?s)" "next_send 1 ?s \<noteq> None"
    "send_bufferLocation (the (next_send 1 ?s)) + send_bufferSize (the (next_send 1 ?s))
       \<le> length (mSendBuffers ?s ! 1)"
    "mSendReceivedIndex ?s ! 1 = 0"
    "mSendReceivedIndex (projr (Move 1 100 2 ?s)) ! 1 = 1"
    "map (memory (projr (Move 1 100 2 ?s))) [99..<104] = [99, 10, 11, 102, 103]"
    by code_simp+
  from d(5) have n: "next_send 1 ?s = Some (the (next_send 1 ?s))" by simp
  from Move_consumes_head[OF d(2-4) n d(6), of 100 2]
  have "\<not> isl (Move 1 100 2 ?s)" by simp
  with d show ?thesis by simp
qed

text \<open>
  Claim C10 fails on the code.  \<open>Move\<close> tests only whether the delivered-send queue is
  empty; it does not compare the consumption index with the length of the queue, as
  \<open>GetTag\<close> does.  Once process 1 has consumed its only delivered send, the queue is not
  empty, the index equals its length, and a second \<open>Move\<close> reads the queue at that index,
  past its end.
\<close>

theorem Move_reads_past_end:
  "\<not> isl one_moved \<and> mSendRequests (projr one_moved) ! 1 \<noteq> [] \<and>
   mSendReceivedIndex (projr one_moved) ! 1 = length (mSendRequests (projr one_moved) ! 1) \<and>
   Move 1 100 8 (projr one_moved) = Inl OutOfBounds"
proof -
  let ?t = "projr one_moved"
  have m: "\<not> isl one_moved" "1 < length (mSendRequests ?t)" "1 < length (mSendReceivedIndex ?t)"
    "1 < length (mSendBuffers ?t)" "mSendRequests ?t ! 1 \<noteq> []"
    "mSendReceivedIndex ?t ! 1 = length (mSendRequests ?t ! 1)"
    by code_simp+
  from m(6) have "\<not> mSendReceivedIndex ?t ! 1 < length (mSendRequests ?t ! 1)" by simp
  from Move_past_end[OF m(2-5) this, of 100 8] m show ?thesis by simp
qed

section \<open>PopReg at Sync\<close>

lemma fold_pop_registers:
  "pid < length (mRegisters s) \<Longrightarrow>
   mRegisters (fold (\<lambda>popRequest s.
       s\<lparr>mRegisters := (mRegisters s)[pid := (mRegisters s ! pid)(popRegister popRequest := None)]\<rparr>) ps s)
   = (mRegisters s)[pid := (\<lambda>a. if a \<in> popRegister ` set ps then None else (mRegisters s ! pid) a)]"
proof (induction ps arbitrary: s)
  case Nil
  then show ?case by (simp add: list_update_same_conv)
next
  case (Cons p ps)
  let ?s1 = "s\<lparr>mRegisters := (mRegisters s)[pid := (mRegisters s ! pid)(popRegister p := None)]\<rparr>"
  have len: "pid < length (mRegisters ?s1)" using Cons.prems by simp
  have "(\<lambda>a. if a \<in> popRegister ` set ps then None else (mRegisters ?s1 ! pid) a) =
        (\<lambda>a. if a \<in> popRegister ` set (p # ps) then None else (mRegisters s ! pid) a)"
    using Cons.prems by (auto simp: fun_eq_iff)
  then show ?case
    unfolding fold_simps Cons.IH[OF len] by (simp del: fun_upd_apply)
qed

text \<open>
  Claim C8.  Applying the pending PopReg requests of process \<open>pid\<close> removes the popped
  addresses from its map \<open>mRegisters[pid]\<close> (local address to size and global index),
  keeps the other entries of that map and the maps of the other processes, empties the
  queue of pending requests, and leaves \<open>mThreadRegisterLocation\<close> (global index to
  address) of every process as it was: every global index resolves to the address it
  resolved to before.
\<close>

theorem ProcessPopRequests_no_compaction:
  assumes "pid < length (mRegisters s)" "pid < length (mPopRequests s)"
  shows "mThreadRegisterLocation (ProcessPopRequests pid s) = mThreadRegisterLocation s \<and>
     mRegisters (ProcessPopRequests pid s) =
       (mRegisters s)[pid := (\<lambda>a. if a \<in> popRegister ` set (mPopRequests s ! pid) then None
                                   else (mRegisters s ! pid) a)] \<and>
     mPopRequests (ProcessPopRequests pid s) ! pid = []"
proof -
  have 1: "mThreadRegisterLocation (ProcessPopRequests pid s) = mThreadRegisterLocation s"
    by simp
  have 2: "mRegisters (ProcessPopRequests pid s) =
       (mRegisters s)[pid := (\<lambda>a. if a \<in> popRegister ` set (mPopRequests s ! pid) then None
                                   else (mRegisters s ! pid) a)]"
    using assms(1)
    by (simp add: ProcessPopRequests_def Let_def fold_pop_registers list_update_same_conv)
  have 3: "mPopRequests (ProcessPopRequests pid s) ! pid = []"
    using assms(2) by (simp add: ProcessPopRequests_def Let_def fold_keeps)
  from 1 2 3 show ?thesis by blast
qed

theorem ProcessPopRequests_no_compaction_witness:
  "\<not> isl pop_pending \<and>
   mThreadRegisterLocation (projr pop_pending) = [[100], [200]] \<and>
   (mRegisters (projr pop_pending) ! 0) 100 \<noteq> None \<and>
   (mRegisters (ProcessPopRequests 0 (projr pop_pending)) ! 0) 100 = None \<and>
   mThreadRegisterLocation (ProcessPopRequests 0 (projr pop_pending)) = [[100], [200]]"
proof -
  let ?s = "projr pop_pending"
  have d: "\<not> isl pop_pending" "0 < length (mRegisters ?s)" "0 < length (mPopRequests ?s)"
    "mThreadRegisterLocation ?s = [[100], [200]]" "(mRegisters ?s ! 0) 100 \<noteq> None"
    "map popRegister (mPopRequests ?s ! 0) = [100]"
    by code_simp+
  from d(6) have "100 \<in> popRegister ` set (mPopRequests ?s ! 0)"
    by (metis list.set_intros(1) set_map)
  with ProcessPopRequests_no_compaction[OF d(2,3)] d show ?thesis by simp
qed

section \<open>Init\<close>

lemma StartTiming_flags:
  assumes "StartTiming pid s = Inr s'"
  shows "mEnded s' = mEnded s" "mAbort s' = mAbort s"
  using assms by (auto simp: StartTiming_def split: if_splits)

lemma Begin_flags:
  assumes "Begin pid maxProcs s = Inr s'"
  shows "(\<not> mEnded s' \<and> \<not> mAbort s') = (if pid = 0 then True else \<not> mEnded s \<and> \<not> mAbort s)"
proof (cases "pid = 0")
  case True
  with assms show ?thesis
    by (auto simp: Begin_def dest: StartTiming_flags)
next
  case False
  with assms obtain s1 where "StartTiming pid s1 = Inr s'" "mEnded s1 = mEnded s" "mAbort s1 = mAbort s"
    by (auto simp: Begin_def Let_def split: if_splits)
  with False StartTiming_flags[of pid s1 s'] show ?thesis by simp
qed

lemma Sync_flags:
  assumes "Sync s = Inr s'"
  shows "mEnded s' = mEnded s" "mAbort s' = mAbort s"
  using assms by (auto simp: Sync_unfold split: if_splits)

lemma do_call_flags:
  assumes "do_call c s = Inr s'"
  shows "(\<not> mEnded s' \<and> \<not> mAbort s') = untouched_run (\<not> mEnded s \<and> \<not> mAbort s) [c]"
proof (cases c)
  case (CallInit e)
  with assms show ?thesis by (auto simp: Init_def Let_def)
next
  case (CallBegin pid maxProcs)
  with assms show ?thesis using Begin_flags[of pid maxProcs s s'] by simp
next
  case (CallEnd pid)
  with assms show ?thesis by (auto simp: End_def SyncPoint_def Let_def)
next
  case (CallAbort msg)
  with assms show ?thesis by (auto simp: VAbort_def Let_def)
next
  case CallSync
  with assms show ?thesis
    by (auto split: sum.splits if_splits dest: Sync_flags)
qed

lemma untouched_run_step:
  "untouched_run b (c # cs) = untouched_run (untouched_run b [c]) cs"
  by (cases c) simp_all

lemma run_flags:
  assumes "run_calls cs s = Inr s'"
  shows "(\<not> mEnded s' \<and> \<not> mAbort s') = untouched_run (\<not> mEnded s \<and> \<not> mAbort s) cs"
  using assms
proof (induction cs arbitrary: s)
  case Nil
  then show ?case by simp
next
  case (Cons c cs)
  from Cons.prems obtain s1 where c: "do_call c s = Inr s1" and cs: "run_calls cs s1 = Inr s'"
    by (auto split: sum.splits)
  have "(\<not> mEnded s' \<and> \<not> mAbort s') = untouched_run (\<not> mEnded s1 \<and> \<not> mAbort s1) cs"
    by (rule Cons.IH[OF cs])
  also have "\<dots> = untouched_run (untouched_run (\<not> mEnded s \<and> \<not> mAbort s) [c]) cs"
    by (simp only: do_call_flags[OF c])
  also have "\<dots> = untouched_run (\<not> mEnded s \<and> \<not> mAbort s) (c # cs)"
    by (rule untouched_run_step[symmetric])
  finally show ?case .
qed

text \<open>
  Claim C9.  Let a history of calls of \<open>Init\<close>, \<open>Begin\<close>, \<open>End\<close>, \<open>Abort\<close> and \<open>Sync\<close> on a freshly
  constructed runtime lead to the state \<open>s\<close>.  Then \<open>Init\<close> records the entry function,
  sets the calling thread's pid to 0 and resets the tag size, and changes nothing else
  but the diagnostic stream: it appends the two lines of the warning if and only if
  neither flag \<open>mEnded\<close> nor \<open>mAbort\<close> is set, which is the case if and only if process 0
  has begun a run and no process has called \<open>End\<close> or \<open>Abort\<close> since.  So there is no
  warning once one process has called \<open>End\<close>, and none after an abort.
\<close>

theorem Init_warns_iff_run_untouched:
  assumes "run_calls cs (BSP_ctor m) = Inr s"
  shows "Init e s =
      (s\<lparr>mEntry := e, mTagSize := 0,
         stderr_lines := stderr_lines s @ (if untouched_run False cs then init_warning else [])\<rparr>,
       0) \<and>
     untouched_run False cs = (\<not> mEnded s \<and> \<not> mAbort s)"
proof -
  have "(\<not> mEnded s \<and> \<not> mAbort s) = untouched_run False cs"
    using run_flags[OF assms] by (simp add: BSP_ctor_def)
  then show ?thesis
    by (auto simp add: Init_def Let_def init_warning_def)
qed

lemma run_begun:
  "run_calls [CallInit (Some 7), CallBegin 0 2] (BSP_ctor example_memory) =
     Inr (projr (run_calls [CallInit (Some 7), CallBegin 0 2] (BSP_ctor example_memory)))"
  by (simp add: Init_def Begin_def StartTiming_def gPID_unset_def BSP_ctor_def Let_def)

lemma run_ended:
  "run_calls [CallInit (Some 7), CallBegin 0 2, CallEnd 0, CallEnd 1] (BSP_ctor example_memory) =
     Inr (projr (run_calls [CallInit (Some 7), CallBegin 0 2, CallEnd 0, CallEnd 1]
                   (BSP_ctor example_memory)))"
  by (simp add: Init_def Begin_def StartTiming_def End_def SyncPoint_def gPID_unset_def
      BSP_ctor_def Let_def)

theorem Init_warns_iff_run_untouched_witness:
  "(let s = projr (run_calls [CallInit (Some 7), CallBegin 0 2] (BSP_ctor example_memory))
    in stderr_lines s = [] \<and> stderr_lines (fst (Init (Some 7) s)) = init_warning \<and>
       mEntry (fst (Init (Some 7) s)) = Some 7 \<and> snd (Init (Some 7) s) = 0) \<and>
   (let s = projr (run_calls [CallInit (Some 7), CallBegin 0 2, CallEnd 0, CallEnd 1]
                     (BSP_ctor example_memory))
    in stderr_lines (fst (Init (Some 7) s)) = [])"
proof -
  have s: "stderr_lines (projr (run_calls [CallInit (Some 7), CallBegin 0 2]
                                  (BSP_ctor example_memory))) = []"
    "stderr_lines (projr (run_calls [CallInit (Some 7), CallBegin 0 2, CallEnd 0, CallEnd 1]
                            (BSP_ctor example_memory))) = []"
    by (simp_all add: Init_def Begin_def StartTiming_def End_def SyncPoint_def gPID_unset_def
        BSP_ctor_def Let_def)
  show ?thesis
    using Init_warns_iff_run_untouched[OF run_begun, of "Some 7"]
      Init_warns_iff_run_untouched[OF run_ended, of "Some 7"] s
    by (simp add: Let_def)
qed

text \<open>
  Claim C9 as stated fails.  Process 0 begins a run of two processes and calls \<open>Abort\<close>:
  no process has called \<open>End\<close>, the run did not end cleanly, and yet \<open>Init\<close> writes
  nothing, so no warning.  And when process 0 has called \<open>End\<close> (it sets \<open>mEnded\<close> and then
  waits at the barrier) but process 1 has not, the run has not ended either, and again
  \<open>Init\<close> writes nothing.
\<close>

theorem Init_silent_after_unclean_run:
  "(let cs = [CallInit (Some 7), CallBegin 0 2, CallAbort ''boom''];
        r = run_calls cs (BSP_ctor example_memory)
    in \<not> isl r \<and> \<not> ended_cleanly (cycle_of cs) \<and>
       stderr_lines (fst (Init (Some 7) (projr r))) = stderr_lines (projr r) \<and>
       stderr_lines (fst (Init (Some 7) (projr r))) \<noteq> stderr_lines (projr r) @ init_warning) \<and>
   (let cs = [CallInit (Some 7), CallBegin 0 2, CallEnd 0];
        r = run_calls cs (BSP_ctor example_memory)
    in \<not> isl r \<and> \<not> ended_cleanly (cycle_of cs) \<and>
       stderr_lines (fst (Init (Some 7) (projr r))) = stderr_lines (projr r) \<and>
       stderr_lines (fst (Init (Some 7) (projr r))) \<noteq> stderr_lines (projr r) @ init_warning)"
  by (simp add: Init_def Begin_def StartTiming_def End_def VAbort_def SyncPoint_def
      gPID_unset_def BSP_ctor_def cycle_of_def init_warning_def Let_def numeral_2_eq_2)

section \<open>SetTagsize and Sync\<close>

lemma exec_instr_mTagSize:
  "i \<noteq> DoTagSizeUpdate \<Longrightarrow> mTagSize (exec_instr i pid s) = mTagSize s"
  by (cases i) simp_all

lemma fold_exec_mTagSize:
  "DoTagSizeUpdate \<notin> set seg \<Longrightarrow> mTagSize (fold (\<lambda>i. exec_instr i pid) seg s) = mTagSize s"
  by (induction seg arbitrary: s) (auto simp: exec_instr_mTagSize)

lemma all_procs_mTagSize:
  "DoTagSizeUpdate \<notin> set seg \<Longrightarrow> mTagSize (all_procs seg s) = mTagSize s"
  by (simp add: all_procs_def fold_keeps fold_exec_mTagSize)

lemma phaseA_mTagSize_aux:
  "mTagSize (fold (\<lambda>pid s. fold (\<lambda>i. exec_instr i pid) [DoTagSizeUpdate, DoProcessGetRequests] s) [0..<n] s)
     = (if 0 < n then mNewTagSize s ! 0 else mTagSize s) \<and>
   mNewTagSize (fold (\<lambda>pid s. fold (\<lambda>i. exec_instr i pid) [DoTagSizeUpdate, DoProcessGetRequests] s) [0..<n] s)
     = mNewTagSize s"
proof (induction n)
  case 0
  show ?case by simp
next
  case (Suc n)
  then show ?case by (cases n) (auto simp: TagSizeUpdate_def)
qed

lemma phaseA_mTagSize:
  "mTagSize (all_procs [DoTagSizeUpdate, DoProcessGetRequests] s)
     = (if 0 < mProcCount s then mNewTagSize s ! 0 else mTagSize s)"
  using phaseA_mTagSize_aux[of "mProcCount s" s] by (simp add: all_procs_def)

lemma Sync_mTagSize:
  "Sync s = Inr s' \<Longrightarrow> mTagSize s' = (if 0 < mProcCount s then mNewTagSize s ! 0 else mTagSize s)"
  by (auto simp: Sync_unfold all_procs_mTagSize phaseA_mTagSize split: if_splits)

text \<open>
  Claim C7.  \<open>SetTagsize\<close> returns, through its parameter, the tag size current at the
  time of the call, whatever size is proposed.  Sync adopts the proposal of process 0
  (all processes have to propose the same size).  So when process \<open>pid\<close> proposes the
  current tag size, and it is process 0 or the pending proposal of process 0 is the
  current tag size as well, the following Sync completes unless the run was aborted, and
  leaves the tag size unchanged.
\<close>

theorem SetTagsize_current_is_idempotent:
  assumes "pid < length (mNewTagSize s)" "pid = 0 \<or> mNewTagSize s ! 0 = mTagSize s"
  shows "(\<forall>sz. \<exists>s1. SetTagsize pid sz s = Inr (s1, mTagSize s)) \<and>
     (\<exists>s1. SetTagsize pid (mTagSize s) s = Inr (s1, mTagSize s) \<and>
        (mAbort s \<longrightarrow> Sync s1 = Inl BspAbort) \<and>
        (\<not> mAbort s \<longrightarrow> (\<exists>s2. Sync s1 = Inr s2 \<and> mTagSize s2 = mTagSize s)))"
proof -
  let ?s1 = "s\<lparr>mNewTagSize := (mNewTagSize s)[pid := mTagSize s]\<rparr>"
  have a: "\<forall>sz. \<exists>s1. SetTagsize pid sz s = Inr (s1, mTagSize s)"
    using assms(1) by (simp add: SetTagsize_def Let_def)
  have b: "SetTagsize pid (mTagSize s) s = Inr (?s1, mTagSize s)"
    using assms(1) by (simp add: SetTagsize_def Let_def)
  have n0: "mNewTagSize ?s1 ! 0 = mTagSize s"
    using assms by (cases "pid = 0") auto
  have c: "mAbort s \<longrightarrow> Sync ?s1 = Inl BspAbort"
    by (simp add: Sync_unfold)
  have d: "\<exists>s2. Sync ?s1 = Inr s2 \<and> mTagSize s2 = mTagSize s" if "\<not> mAbort s"
  proof -
    from that obtain s2 where s2: "Sync ?s1 = Inr s2" by (simp add: Sync_unfold)
    from Sync_mTagSize[OF s2] n0 have "mTagSize s2 = mTagSize s" by simp
    with s2 show ?thesis by blast
  qed
  from a b c d show ?thesis by blast
qed

theorem SetTagsize_current_is_idempotent_witness:
  "\<not> isl tagged \<and> mTagSize (projr tagged) = 8 \<and> \<not> mAbort (projr tagged) \<and>
   snd (projr (SetTagsize 0 3 (projr tagged))) = 8 \<and>
   snd (projr (SetTagsize 0 8 (projr tagged))) = 8 \<and>
   \<not> isl (Sync (fst (projr (SetTagsize 0 8 (projr tagged))))) \<and>
   mTagSize (projr (Sync (fst (projr (SetTagsize 0 8 (projr tagged)))))) = 8"
proof -
  let ?s = "projr tagged"
  have d: "\<not> isl tagged" "mTagSize ?s = 8" "\<not> mAbort ?s" "0 < length (mNewTagSize ?s)"
    by code_simp+
  have h: "(0::nat) = 0 \<or> mNewTagSize ?s ! 0 = mTagSize ?s" by simp
  from SetTagsize_current_is_idempotent[OF d(4) h] d(2,3)
  have a: "\<forall>sz. \<exists>s1. SetTagsize 0 sz ?s = Inr (s1, 8)"
    and b: "\<exists>s1. SetTagsize 0 8 ?s = Inr (s1, 8) \<and> (\<exists>s2. Sync s1 = Inr s2 \<and> mTagSize s2 = 8)"
    by simp_all
  from a obtain s3 where s3: "SetTagsize 0 3 ?s = Inr (s3, 8)" by blast
  from b obtain s1 s2 where s1: "SetTagsize 0 8 ?s = Inr (s1, 8)" "Sync s1 = Inr s2" "mTagSize s2 = 8"
    by blast
  show ?thesis using d s3 s1 by simp
qed

section \<open>The order of the steps of Sync\<close>

lemma length_Sync_body [simp]: "length Sync_body = 11"
  by (simp add: Sync_body_def)

lemma executed_Suc:
  assumes "n < length Sync_body"
  shows "executed (Suc n) = (if Sync_body ! n = DoSyncPoint then executed n else executed n @ [Sync_body ! n])"
  using assms by (simp add: executed_def take_Suc_conv_app_nth)

lemma barriers_passed_Suc:
  assumes "n < length Sync_body"
  shows "barriers_passed (Suc n) = (if Sync_body ! n = DoSyncPoint then Suc (barriers_passed n) else barriers_passed n)"
  using assms by (simp add: barriers_passed_def take_Suc_conv_app_nth)

lemma position_cases:
  assumes "n \<le> 11"
  obtains "n = 0" | "n = 1" | "n = 2" | "n = 3" | "n = 4" | "n = 5" | "n = 6" | "n = 7"
    | "n = 8" | "n = 9" | "n = 10" | "n = (11::nat)"
proof -
  from assms have "n < 12" by simp
  then show thesis using that by (auto simp: less_Suc_eq numeral_eq_Suc)
qed

lemma stage_at:
  assumes "n < length Sync_body" "Sync_body ! n \<noteq> DoSyncPoint"
  shows "barriers_passed n = stage (Sync_body ! n)"
proof -
  from assms(1) have "n \<le> 11" by simp
  then show ?thesis using assms
    by (cases rule: position_cases) (simp_all add: Sync_body_def barriers_passed_def)
qed

lemma earlier_stage_executed:
  assumes "n \<le> length Sync_body" "j \<noteq> DoSyncPoint" "stage j < barriers_passed n"
  shows "j \<in> set (executed n)"
proof -
  from assms(1) have "n \<le> 11" by simp
  then show ?thesis using assms(2,3)
    by (cases rule: position_cases; cases j; simp add: Sync_body_def barriers_passed_def executed_def)
qed

lemma clear_before_push:
  assumes "n < length Sync_body" "Sync_body ! n = DoProcessPushRequests"
  shows "DoClearPutBuffer \<in> set (executed n)"
proof -
  from assms(1) have "n \<le> 11" by simp
  then show ?thesis using assms
    by (cases rule: position_cases) (simp_all add: Sync_body_def executed_def)
qed

lemma executed_prefix:
  "executed n = take (length (executed n))
     [DoTagSizeUpdate, DoProcessGetRequests, DoProcessPopRequests, DoProcessSendRequests,
      DoProcessPutRequests, DoClearPutBuffer, DoProcessPushRequests]"
proof (cases "n \<le> 11")
  case True
  then show ?thesis
    by (cases rule: position_cases) (simp_all add: Sync_body_def executed_def)
next
  case False
  then show ?thesis by (simp add: Sync_body_def executed_def)
qed

lemma events_of_snoc:
  "events_of q (es @ [(p, i)]) = (if q = p then events_of q es @ [i] else events_of q es)"
  by (simp add: events_of_def)

lemma in_events_of: "j \<in> set (events_of q es) \<longleftrightarrow> (q, j) \<in> set es"
  by (auto simp: events_of_def image_iff)

lemma sync_inv_init: "sync_inv (mProcCount s) (init_config s)"
  by (simp add: sync_inv_def init_config_def events_of_def executed_def)

lemma sync_invI:
  assumes "length (pc c) = P" "length (status c) = P"
    "\<And>q. q < P \<Longrightarrow> pc c ! q \<le> length Sync_body"
    "\<And>q. q < P \<Longrightarrow> events_of q (events c) = executed (pc c ! q)"
    "\<And>q. q < P \<Longrightarrow> status c ! q = Waiting \<Longrightarrow>
       pc c ! q < length Sync_body \<and> Sync_body ! (pc c ! q) = DoSyncPoint"
    "\<And>q r. q < P \<Longrightarrow> r < P \<Longrightarrow> barriers_passed (pc c ! q) = barriers_passed (pc c ! r)"
  shows "sync_inv P c"
  unfolding sync_inv_def using assms by blast

lemma sync_invD:
  assumes "sync_inv P c"
  shows "length (pc c) = P" "length (status c) = P"
    "\<And>q. q < P \<Longrightarrow> pc c ! q \<le> length Sync_body"
    "\<And>q. q < P \<Longrightarrow> events_of q (events c) = executed (pc c ! q)"
    "\<And>q. q < P \<Longrightarrow> status c ! q = Waiting \<Longrightarrow>
       pc c ! q < length Sync_body \<and> Sync_body ! (pc c ! q) = DoSyncPoint"
    "\<And>q r. q < P \<Longrightarrow> r < P \<Longrightarrow> barriers_passed (pc c ! q) = barriers_passed (pc c ! r)"
  using assms unfolding sync_inv_def by blast+

lemma sync_inv_step:
  assumes "sync_step c c'" "sync_inv P c"
  shows "sync_inv P c'"
  using assms(1)
proof (cases rule: sync_step.cases)
  case (execute p i)
  note inv = sync_invD[OF assms(2)]
  have p: "p < P" using execute(2) inv(1) by simp
  have ex: "executed (Suc (pc c ! p)) = executed (pc c ! p) @ [i]"
    and ba: "barriers_passed (Suc (pc c ! p)) = barriers_passed (pc c ! p)"
    using execute(4,5,6) by (simp_all add: executed_Suc barriers_passed_Suc)
  have pc': "pc c' = (pc c)[p := Suc (pc c ! p)]" and st': "status c' = status c"
    and ev': "events c' = events c @ [(p, i)]"
    using execute(1) by simp_all
  show ?thesis
  proof (rule sync_invI)
    show "length (pc c') = P" using inv(1) pc' by simp
    show "length (status c') = P" using inv(2) st' by simp
    show "pc c' ! q \<le> length Sync_body" if "q < P" for q
      using that inv(1) inv(3)[OF that] execute(4) unfolding pc'
      by (cases "q = p") simp_all
    show "events_of q (events c') = executed (pc c' ! q)" if "q < P" for q
      using that inv(1) inv(4)[OF that] ex unfolding pc' ev'
      by (cases "q = p") (simp_all add: events_of_snoc)
    show "pc c' ! q < length Sync_body \<and> Sync_body ! (pc c' ! q) = DoSyncPoint"
      if "q < P" "status c' ! q = Waiting" for q
    proof (cases "q = p")
      case True
      with that(2) execute(3) st' show ?thesis by simp
    next
      case False
      with inv(5)[OF that(1)] that(2) st' inv(1) show ?thesis unfolding pc' by simp
    qed
    show "barriers_passed (pc c' ! q) = barriers_passed (pc c' ! r)" if "q < P" "r < P" for q r
    proof -
      have "barriers_passed (pc c' ! x) = barriers_passed (pc c ! x)" if "x < P" for x
        using that inv(1) ba unfolding pc' by (cases "x = p") simp_all
      with inv(6)[OF that] that show ?thesis by simp
    qed
  qed
next
  case (arrive p)
  note inv = sync_invD[OF assms(2)]
  have pc': "pc c' = pc c" and st': "status c' = (status c)[p := Waiting]"
    and ev': "events c' = events c"
    using arrive(1) by simp_all
  show ?thesis
  proof (rule sync_invI)
    show "length (pc c') = P" using inv(1) pc' by simp
    show "length (status c') = P" using inv(2) st' by simp
    show "pc c' ! q \<le> length Sync_body" if "q < P" for q
      using inv(3)[OF that] pc' by simp
    show "events_of q (events c') = executed (pc c' ! q)" if "q < P" for q
      using inv(4)[OF that] pc' ev' by simp
    show "pc c' ! q < length Sync_body \<and> Sync_body ! (pc c' ! q) = DoSyncPoint"
      if "q < P" "status c' ! q = Waiting" for q
    proof (cases "q = p")
      case True
      with arrive(4,5) pc' show ?thesis by simp
    next
      case False
      with inv(5)[OF that(1)] that(2) st' pc' show ?thesis by simp
    qed
    show "barriers_passed (pc c' ! q) = barriers_passed (pc c' ! r)" if "q < P" "r < P" for q r
      using inv(6)[OF that] pc' by simp
  qed
next
  case release
  note inv = sync_invD[OF assms(2)]
  have pc': "pc c' = map Suc (pc c)" and st': "status c' = map (\<lambda>_. Running) (status c)"
    and ev': "events c' = events c"
    using release(1) by simp_all
  have at: "pc c ! q < length Sync_body \<and> Sync_body ! (pc c ! q) = DoSyncPoint" if "q < P" for q
  proof -
    from release(2) that inv(2) have "status c ! q = Waiting" by (simp add: list_all_length)
    with inv(5)[OF that] show ?thesis by simp
  qed
  show ?thesis
  proof (rule sync_invI)
    show "length (pc c') = P" using inv(1) pc' by simp
    show "length (status c') = P" using inv(2) st' by simp
    show "pc c' ! q \<le> length Sync_body" if "q < P" for q
      using at[OF that] that inv(1) unfolding pc' by simp
    show "events_of q (events c') = executed (pc c' ! q)" if "q < P" for q
      using at[OF that] inv(4)[OF that] that inv(1) unfolding pc' ev'
      by (simp add: executed_Suc)
    show "pc c' ! q < length Sync_body \<and> Sync_body ! (pc c' ! q) = DoSyncPoint"
      if "q < P" "status c' ! q = Waiting" for q
      using that inv(2) unfolding st' by simp
    show "barriers_passed (pc c' ! q) = barriers_passed (pc c' ! r)" if "q < P" "r < P" for q r
      using at[OF that(1)] at[OF that(2)] inv(6)[OF that] that inv(1) unfolding pc'
      by (simp add: barriers_passed_Suc)
  qed
next
  case (throw p)
  note inv = sync_invD[OF assms(2)]
  have pc': "pc c' = pc c" and st': "status c' = (status c)[p := Thrown]"
    and ev': "events c' = events c"
    using throw(1) by simp_all
  show ?thesis
  proof (rule sync_invI)
    show "length (pc c') = P" using inv(1) pc' by simp
    show "length (status c') = P" using inv(2) st' by simp
    show "pc c' ! q \<le> length Sync_body" if "q < P" for q
      using inv(3)[OF that] pc' by simp
    show "events_of q (events c') = executed (pc c' ! q)" if "q < P" for q
      using inv(4)[OF that] pc' ev' by simp
    show "pc c' ! q < length Sync_body \<and> Sync_body ! (pc c' ! q) = DoSyncPoint"
      if "q < P" "status c' ! q = Waiting" for q
    proof (cases "q = p")
      case True
      with that inv(2) st' show ?thesis by simp
    next
      case False
      with inv(5)[OF that(1)] that(2) st' pc' show ?thesis by simp
    qed
    show "barriers_passed (pc c' ! q) = barriers_passed (pc c' ! r)" if "q < P" "r < P" for q r
      using inv(6)[OF that] pc' by simp
  qed
qed

lemma log_ordered_step:
  assumes "sync_step c c'" "sync_inv P c" "log_ordered P (events c)"
  shows "log_ordered P (events c')"
  using assms(1)
proof (cases rule: sync_step.cases)
  case (execute p i)
  note inv = sync_invD[OF assms(2)]
  have len: "length (pc c) = P" by (rule inv(1))
  have loc: "pc c ! q \<le> length Sync_body \<and> events_of q (events c) = executed (pc c ! q)"
    if "q < P" for q using inv(3,4)[OF that] by simp
  have bar: "barriers_passed (pc c ! q) = barriers_passed (pc c ! r)" if "q < P" "r < P" for q r
    by (rule inv(6)[OF that])
  have p: "p < P" using execute(2) len by simp
  have st: "barriers_passed (pc c ! p) = stage i"
    using stage_at[of "pc c ! p"] execute(4,5,6) by simp
  have new1: "(q, j) \<in> set (events c)" if "q < P" "j \<noteq> DoSyncPoint" "stage j < stage i" for q j
  proof -
    from that(3) st bar[OF that(1) p] have "stage j < barriers_passed (pc c ! q)" by simp
    with loc[OF that(1)] that(2) have "j \<in> set (executed (pc c ! q))"
      by (simp add: earlier_stage_executed)
    with loc[OF that(1)] show ?thesis by (simp add: in_events_of[symmetric])
  qed
  have new2: "(p, DoClearPutBuffer) \<in> set (events c)" if "i = DoProcessPushRequests"
  proof -
    from that execute(4,5) have "DoClearPutBuffer \<in> set (executed (pc c ! p))"
      by (simp add: clear_before_push)
    with loc[OF p] show ?thesis by (simp add: in_events_of[symmetric])
  qed
  have ev: "events c' = events c @ [(p, i)]" using execute(1) by simp
  show ?thesis
    unfolding log_ordered_def
  proof (intro allI impI)
    fix es1 p' i' es2
    assume split: "events c' = es1 @ (p', i') # es2"
    show "(\<forall>q<P. \<forall>j. j \<noteq> DoSyncPoint \<and> stage j < stage i' \<longrightarrow> (q, j) \<in> set es1) \<and>
          (i' = DoProcessPushRequests \<longrightarrow> (p', DoClearPutBuffer) \<in> set es1)"
    proof (cases es2 rule: rev_cases)
      case Nil
      with split ev have "es1 = events c" "p' = p" "i' = i" by simp_all
      with new1 new2 show ?thesis by blast
    next
      case (snoc es2' x)
      with split ev have "events c = es1 @ (p', i') # es2'" by simp
      with assms(3) show ?thesis unfolding log_ordered_def by blast
    qed
  qed
next
  case (arrive p)
  then show ?thesis using assms(3) by simp
next
  case release
  then show ?thesis using assms(3) by simp
next
  case (throw p)
  then show ?thesis using assms(3) by simp
qed

lemma reachable_inv:
  assumes "reachable s c"
  shows "sync_inv (mProcCount s) c \<and> log_ordered (mProcCount s) (events c)"
  using assms unfolding reachable_def
proof (induction rule: rtranclp_induct)
  case base
  show ?case by (simp add: sync_inv_init) (simp add: init_config_def log_ordered_def)
next
  case (step c c')
  then show ?case using sync_inv_step log_ordered_step by blast
qed

text \<open>
  Claim C3.  In every configuration that the P processes can reach while they execute
  \<open>Sync\<close>, under any interleaving of their steps between the barriers:
  \<^item> the statements each process has executed so far are a prefix of the fixed sequence
    tag-size update, Get conversion, PopReg application, Send delivery, Put
    application, clearing of its put arena, PushReg application;
  \<^item> before any process applies PopReg requests, delivers sends or applies Puts, every
    process has converted its Get requests into Puts;
  \<^item> before any process clears its put arena or applies PushReg requests, every process
    has applied its PopReg requests, delivered its sends and applied the Puts addressed
    to it (so every receiver has extracted its bytes from every arena);
  \<^item> a process applies its PushReg requests after it has cleared its put arena.
\<close>

theorem Sync_steps_in_fixed_order:
  assumes "reachable s c"
  shows "(\<forall>q<mProcCount s. \<exists>n. events_of q (events c) =
            take n [DoTagSizeUpdate, DoProcessGetRequests, DoProcessPopRequests,
                    DoProcessSendRequests, DoProcessPutRequests, DoClearPutBuffer,
                    DoProcessPushRequests]) \<and>
     (\<forall>es1 p i es2. events c = es1 @ (p, i) # es2 \<longrightarrow>
        (\<forall>q<mProcCount s.
           (i \<in> {DoProcessPopRequests, DoProcessSendRequests, DoProcessPutRequests} \<longrightarrow>
              (q, DoTagSizeUpdate) \<in> set es1 \<and> (q, DoProcessGetRequests) \<in> set es1) \<and>
           (i \<in> {DoClearPutBuffer, DoProcessPushRequests} \<longrightarrow>
              (q, DoProcessPopRequests) \<in> set es1 \<and> (q, DoProcessSendRequests) \<in> set es1 \<and>
              (q, DoProcessPutRequests) \<in> set es1)) \<and>
        (i = DoProcessPushRequests \<longrightarrow> (p, DoClearPutBuffer) \<in> set es1))"
proof -
  from reachable_inv[OF assms]
  have inv: "sync_inv (mProcCount s) c" and ord: "log_ordered (mProcCount s) (events c)" by simp_all
  have a: "\<forall>q<mProcCount s. \<exists>n. events_of q (events c) =
            take n [DoTagSizeUpdate, DoProcessGetRequests, DoProcessPopRequests,
                    DoProcessSendRequests, DoProcessPutRequests, DoClearPutBuffer,
                    DoProcessPushRequests]"
  proof (intro allI impI)
    fix q assume "q < mProcCount s"
    with inv have "events_of q (events c) = executed (pc c ! q)" by (simp add: sync_inv_def)
    with executed_prefix[of "pc c ! q"] show "\<exists>n. events_of q (events c) =
            take n [DoTagSizeUpdate, DoProcessGetRequests, DoProcessPopRequests,
                    DoProcessSendRequests, DoProcessPutRequests, DoClearPutBuffer,
                    DoProcessPushRequests]" by metis
  qed
  have b: "\<forall>es1 p i es2. events c = es1 @ (p, i) # es2 \<longrightarrow>
        (\<forall>q<mProcCount s.
           (i \<in> {DoProcessPopRequests, DoProcessSendRequests, DoProcessPutRequests} \<longrightarrow>
              (q, DoTagSizeUpdate) \<in> set es1 \<and> (q, DoProcessGetRequests) \<in> set es1) \<and>
           (i \<in> {DoClearPutBuffer, DoProcessPushRequests} \<longrightarrow>
              (q, DoProcessPopRequests) \<in> set es1 \<and> (q, DoProcessSendRequests) \<in> set es1 \<and>
              (q, DoProcessPutRequests) \<in> set es1)) \<and>
        (i = DoProcessPushRequests \<longrightarrow> (p, DoClearPutBuffer) \<in> set es1)"
  proof (intro allI impI)
    fix es1 p i es2
    assume "events c = es1 @ (p, i) # es2"
    with ord have 1: "\<And>q j. q < mProcCount s \<Longrightarrow> j \<noteq> DoSyncPoint \<Longrightarrow> stage j < stage i \<Longrightarrow> (q, j) \<in> set es1"
      and 2: "i = DoProcessPushRequests \<longrightarrow> (p, DoClearPutBuffer) \<in> set es1"
      unfolding log_ordered_def by blast+
    show "(\<forall>q<mProcCount s.
           (i \<in> {DoProcessPopRequests, DoProcessSendRequests, DoProcessPutRequests} \<longrightarrow>
              (q, DoTagSizeUpdate) \<in> set es1 \<and> (q, DoProcessGetRequests) \<in> set es1) \<and>
           (i \<in> {DoClearPutBuffer, DoProcessPushRequests} \<longrightarrow>
              (q, DoProcessPopRequests) \<in> set es1 \<and> (q, DoProcessSendRequests) \<in> set es1 \<and>
              (q, DoProcessPutRequests) \<in> set es1)) \<and>
        (i = DoProcessPushRequests \<longrightarrow> (p, DoClearPutBuffer) \<in> set es1)"
      using 1 2 by auto
  qed
  from a b show ?thesis by blast
qed

subsection \<open>The schedule of Sync is one of the executions\<close>

lemma segment_Suc:
  assumes "n < length Sync_body"
  shows "take (Suc l) (drop n Sync_body) = Sync_body ! n # take l (drop (Suc n) Sync_body)"
proof -
  have "drop n Sync_body = Sync_body ! n # drop (Suc n) Sync_body"
    using assms by (rule Cons_nth_drop_Suc[symmetric])
  then show ?thesis by (simp only: take_Suc_Cons)
qed

lemma execute_segment:
  assumes "k < length (pc c)" "status c ! k = Running" "pc c ! k = n"
    "n + l \<le> length Sync_body" "DoSyncPoint \<notin> set (take l (drop n Sync_body))"
  shows "sync_step\<^sup>*\<^sup>* c (c\<lparr>pc := (pc c)[k := n + l],
            shared := fold (\<lambda>i. exec_instr i k) (take l (drop n Sync_body)) (shared c),
            events := events c @ map (Pair k) (take l (drop n Sync_body))\<rparr>)"
  using assms
proof (induction l arbitrary: c n)
  case 0
  have e: "(pc c)[k := n] = pc c"
    using list_update_id[of "pc c" k] unfolding "0.prems"(3) .
  have "c\<lparr>pc := (pc c)[k := n + 0],
          shared := fold (\<lambda>i. exec_instr i k) (take 0 (drop n Sync_body)) (shared c),
          events := events c @ map (Pair k) (take 0 (drop n Sync_body))\<rparr> = c\<lparr>pc := (pc c)[k := n]\<rparr>"
    by simp
  also have "\<dots> = c\<lparr>pc := pc c\<rparr>" by (simp only: e)
  also have "\<dots> = c" by simp
  finally have eq: "c\<lparr>pc := (pc c)[k := n + 0],
          shared := fold (\<lambda>i. exec_instr i k) (take 0 (drop n Sync_body)) (shared c),
          events := events c @ map (Pair k) (take 0 (drop n Sync_body))\<rparr> = c" .
  show ?case unfolding eq by (rule rtranclp.rtrancl_refl)
next
  case (Suc l)
  let ?i = "Sync_body ! n"
  let ?c1 = "c\<lparr>pc := (pc c)[k := Suc (pc c ! k)], shared := exec_instr ?i k (shared c),
               events := events c @ [(k, ?i)]\<rparr>"
  from Suc.prems(4) have n: "n < length Sync_body" by simp
  note seg = segment_Suc[OF n, of l]
  from Suc.prems(5) have i: "?i \<noteq> DoSyncPoint"
    and rest: "DoSyncPoint \<notin> set (take l (drop (Suc n) Sync_body))"
    unfolding seg by auto
  have step: "sync_step c ?c1"
  proof (rule sync_step.execute)
    show "k < length (pc c)" by (rule Suc.prems(1))
    show "status c ! k = Running" by (rule Suc.prems(2))
    show "pc c ! k < length Sync_body" unfolding Suc.prems(3) by (rule n)
    show "Sync_body ! (pc c ! k) = ?i" unfolding Suc.prems(3) by (rule refl)
    show "?i \<noteq> DoSyncPoint" by (rule i)
  qed
  have IH: "sync_step\<^sup>*\<^sup>* ?c1 (?c1\<lparr>pc := (pc ?c1)[k := Suc n + l],
            shared := fold (\<lambda>i. exec_instr i k) (take l (drop (Suc n) Sync_body)) (shared ?c1),
            events := events ?c1 @ map (Pair k) (take l (drop (Suc n) Sync_body))\<rparr>)"
  proof (rule Suc.IH)
    show "k < length (pc ?c1)" using Suc.prems(1) by simp
    show "status ?c1 ! k = Running" using Suc.prems(2) by simp
    show "pc ?c1 ! k = Suc n" using Suc.prems(1) unfolding Suc.prems(3)[symmetric] by simp
    show "Suc n + l \<le> length Sync_body" using Suc.prems(4) by simp
    show "DoSyncPoint \<notin> set (take l (drop (Suc n) Sync_body))" by (rule rest)
  qed
  have eq: "?c1\<lparr>pc := (pc ?c1)[k := Suc n + l],
            shared := fold (\<lambda>i. exec_instr i k) (take l (drop (Suc n) Sync_body)) (shared ?c1),
            events := events ?c1 @ map (Pair k) (take l (drop (Suc n) Sync_body))\<rparr> =
        c\<lparr>pc := (pc c)[k := n + Suc l],
            shared := fold (\<lambda>i. exec_instr i k) (take (Suc l) (drop n Sync_body)) (shared c),
            events := events c @ map (Pair k) (take (Suc l) (drop n Sync_body))\<rparr>"
    unfolding seg by simp
  from IH have "sync_step\<^sup>*\<^sup>* ?c1 (c\<lparr>pc := (pc c)[k := n + Suc l],
            shared := fold (\<lambda>i. exec_instr i k) (take (Suc l) (drop n Sync_body)) (shared c),
            events := events c @ map (Pair k) (take (Suc l) (drop n Sync_body))\<rparr>)"
    unfolding eq .
  with step show ?case by (rule converse_rtranclp_into_rtranclp)
qed

lemma segment_events_Suc: "segment_events (Suc k) seg = segment_events k seg @ map (Pair k) seg"
  by (simp add: segment_events_def)

lemma mark_update:
  "k < P \<Longrightarrow> (map (\<lambda>q. if q < k then a else b) [0..<P])[k := a] = map (\<lambda>q. if q < Suc k then a else b) [0..<P]"
  by (rule nth_equalityI) (auto simp: nth_list_update less_Suc_eq)

lemma mark_none: "map (\<lambda>q. if q < 0 then a else b) [0..<P] = replicate P b"
  by (rule nth_equalityI) auto

lemma mark_all: "map (\<lambda>q. if q < P then a else b) [0..<P] = replicate P a"
  by (rule nth_equalityI) auto

lemma run_segment_upto:
  assumes "n + l \<le> length Sync_body" "DoSyncPoint \<notin> set (take l (drop n Sync_body))" "k \<le> P"
  shows "sync_step\<^sup>*\<^sup>* (standing_at P n sh es)
     \<lparr> pc = map (\<lambda>q. if q < k then n + l else n) [0..<P],
       status = replicate P Running,
       shared = fold (\<lambda>pid s. fold (\<lambda>i. exec_instr i pid) (take l (drop n Sync_body)) s) [0..<k] sh,
       events = es @ segment_events k (take l (drop n Sync_body)) \<rparr>"
  using assms(3)
proof (induction k)
  case 0
  show ?case by (simp add: standing_at_def map_replicate_const segment_events_def)
next
  case (Suc k)
  let ?seg = "take l (drop n Sync_body)"
  let ?c = "\<lparr> pc = map (\<lambda>q. if q < k then n + l else n) [0..<P],
       status = replicate P Running,
       shared = fold (\<lambda>pid s. fold (\<lambda>i. exec_instr i pid) ?seg s) [0..<k] sh,
       events = es @ segment_events k ?seg \<rparr>"
  from Suc have k: "k < P" and reach: "sync_step\<^sup>*\<^sup>* (standing_at P n sh es) ?c" by simp_all
  have run: "sync_step\<^sup>*\<^sup>* ?c (?c\<lparr>pc := (pc ?c)[k := n + l],
            shared := fold (\<lambda>i. exec_instr i k) ?seg (shared ?c),
            events := events ?c @ map (Pair k) ?seg\<rparr>)"
  proof (rule execute_segment)
    show "k < length (pc ?c)" using k by simp
    show "status ?c ! k = Running" using k by simp
    show "pc ?c ! k = n" using k by simp
    show "n + l \<le> length Sync_body" by (rule assms(1))
    show "DoSyncPoint \<notin> set ?seg" by (rule assms(2))
  qed
  have eq: "?c\<lparr>pc := (pc ?c)[k := n + l],
            shared := fold (\<lambda>i. exec_instr i k) ?seg (shared ?c),
            events := events ?c @ map (Pair k) ?seg\<rparr> =
     \<lparr> pc = map (\<lambda>q. if q < Suc k then n + l else n) [0..<P],
       status = replicate P Running,
       shared = fold (\<lambda>pid s. fold (\<lambda>i. exec_instr i pid) ?seg s) [0..<Suc k] sh,
       events = es @ segment_events (Suc k) ?seg \<rparr>"
    using k by (simp add: mark_update segment_events_Suc)
  from run have "sync_step\<^sup>*\<^sup>* ?c
     \<lparr> pc = map (\<lambda>q. if q < Suc k then n + l else n) [0..<P],
       status = replicate P Running,
       shared = fold (\<lambda>pid s. fold (\<lambda>i. exec_instr i pid) ?seg s) [0..<Suc k] sh,
       events = es @ segment_events (Suc k) ?seg \<rparr>"
    unfolding eq .
  with reach show ?case by (rule rtranclp_trans)
qed

lemma run_segment:
  assumes "n + l \<le> length Sync_body" "DoSyncPoint \<notin> set (take l (drop n Sync_body))"
    "mProcCount sh = P" "n + l = m" "take l (drop n Sync_body) = seg"
  shows "sync_step\<^sup>*\<^sup>* (standing_at P n sh es)
     (standing_at P m (all_procs seg sh) (es @ segment_events P seg))"
  using run_segment_upto[OF assms(1,2), of P P sh es] assms(3,4)
  unfolding assms(5)
  by (simp add: standing_at_def all_procs_def mark_all)

lemma arrive_upto:
  assumes "n < length Sync_body" "Sync_body ! n = DoSyncPoint" "k \<le> P"
  shows "sync_step\<^sup>*\<^sup>* (standing_at P n sh es)
     \<lparr> pc = replicate P n, status = map (\<lambda>q. if q < k then Waiting else Running) [0..<P],
       shared = sh, events = es \<rparr>"
  using assms(3)
proof (induction k)
  case 0
  show ?case by (simp add: standing_at_def map_replicate_const)
next
  case (Suc k)
  let ?c = "\<lparr> pc = replicate P n, status = map (\<lambda>q. if q < k then Waiting else Running) [0..<P],
       shared = sh, events = es \<rparr>"
  from Suc have k: "k < P" and reach: "sync_step\<^sup>*\<^sup>* (standing_at P n sh es) ?c" by simp_all
  have "sync_step ?c (?c\<lparr>status := (status ?c)[k := Waiting]\<rparr>)"
    using k assms(1,2) by (intro sync_step.arrive) simp_all
  also have "?c\<lparr>status := (status ?c)[k := Waiting]\<rparr> =
     \<lparr> pc = replicate P n, status = map (\<lambda>q. if q < Suc k then Waiting else Running) [0..<P],
       shared = sh, events = es \<rparr>"
    using k by (simp add: mark_update)
  finally have "sync_step ?c \<lparr> pc = replicate P n,
       status = map (\<lambda>q. if q < Suc k then Waiting else Running) [0..<P], shared = sh, events = es \<rparr>" .
  with reach show ?case by (rule rtranclp.rtrancl_into_rtrancl)
qed

lemma pass_barrier:
  assumes "n < length Sync_body" "Sync_body ! n = DoSyncPoint" "\<not> mAbort sh"
  shows "sync_step\<^sup>*\<^sup>* (standing_at P n sh es) (standing_at P (Suc n) sh es)"
proof -
  let ?w = "\<lparr> pc = replicate P n, status = replicate P Waiting, shared = sh, events = es \<rparr>"
  have 1: "sync_step\<^sup>*\<^sup>* (standing_at P n sh es) ?w"
    using arrive_upto[OF assms(1,2), of P P sh es] by (simp add: mark_all)
  have "sync_step ?w (?w\<lparr>pc := map Suc (pc ?w), status := map (\<lambda>_. Running) (status ?w)\<rparr>)"
    using assms(3) by (intro sync_step.release) (simp_all add: list_all_length)
  also have "?w\<lparr>pc := map Suc (pc ?w), status := map (\<lambda>_. Running) (status ?w)\<rparr> =
     standing_at P (Suc n) sh es"
    by (simp add: standing_at_def)
  finally have "sync_step ?w (standing_at P (Suc n) sh es)" .
  with 1 show ?thesis by (rule rtranclp.rtrancl_into_rtrancl)
qed

lemma pass_barrier':
  assumes "n < length Sync_body" "Sync_body ! n = DoSyncPoint" "\<not> mAbort sh" "Suc n = m"
  shows "sync_step\<^sup>*\<^sup>* (standing_at P n sh es) (standing_at P m sh es)"
  using pass_barrier[OF assms(1-3)] assms(4) by simp

lemma Sync_schedule_reachable:
  assumes "\<not> mAbort s"
  shows "reachable s (final_config s)"
proof -
  let ?P = "mProcCount s"
  let ?A = "[DoTagSizeUpdate, DoProcessGetRequests]"
  let ?B = "[DoProcessPopRequests, DoProcessSendRequests, DoProcessPutRequests]"
  let ?C = "[DoClearPutBuffer, DoProcessPushRequests]"
  let ?sA = "all_procs ?A s"
  let ?sB = "all_procs ?B ?sA"
  let ?sC = "all_procs ?C ?sB"
  let ?eA = "segment_events ?P ?A"
  let ?eB = "?eA @ segment_events ?P ?B"
  let ?eC = "?eB @ segment_events ?P ?C"
  have 0: "init_config s = standing_at ?P 0 s []"
    by (simp add: init_config_def standing_at_def)
  have 1: "sync_step\<^sup>*\<^sup>* (standing_at ?P 0 s []) (standing_at ?P 1 s [])"
    by (rule pass_barrier') (use assms in \<open>simp_all add: Sync_body_def\<close>)
  have 2: "sync_step\<^sup>*\<^sup>* (standing_at ?P 1 s []) (standing_at ?P 3 ?sA ?eA)"
    using run_segment[where n=1 and l=2 and sh=s and P="?P" and m=3 and seg="?A" and es="[]"]
    by (simp add: Sync_body_def)
  have 3: "sync_step\<^sup>*\<^sup>* (standing_at ?P 3 ?sA ?eA) (standing_at ?P 4 ?sA ?eA)"
    by (rule pass_barrier') (use assms in \<open>simp_all add: Sync_body_def\<close>)
  have 4: "sync_step\<^sup>*\<^sup>* (standing_at ?P 4 ?sA ?eA) (standing_at ?P 7 ?sB ?eB)"
    using run_segment[where n=4 and l=3 and sh="?sA" and P="?P" and m=7 and seg="?B" and es="?eA"]
    by (simp add: Sync_body_def)
  have 5: "sync_step\<^sup>*\<^sup>* (standing_at ?P 7 ?sB ?eB) (standing_at ?P 8 ?sB ?eB)"
    by (rule pass_barrier') (use assms in \<open>simp_all add: Sync_body_def\<close>)
  have 6: "sync_step\<^sup>*\<^sup>* (standing_at ?P 8 ?sB ?eB) (standing_at ?P 10 ?sC ?eC)"
    using run_segment[where n=8 and l=2 and sh="?sB" and P="?P" and m=10 and seg="?C" and es="?eB"]
    by (simp add: Sync_body_def)
  have 7: "sync_step\<^sup>*\<^sup>* (standing_at ?P 10 ?sC ?eC) (standing_at ?P 11 ?sC ?eC)"
    by (rule pass_barrier') (use assms in \<open>simp_all add: Sync_body_def\<close>)
  have 8: "standing_at ?P 11 ?sC ?eC = final_config s"
    by (simp add: final_config_def standing_at_def)
  from 1 2 3 4 5 6 7 have "sync_step\<^sup>*\<^sup>* (standing_at ?P 0 s []) (standing_at ?P 11 ?sC ?eC)"
    by (meson rtranclp_trans)
  then show ?thesis unfolding reachable_def 0 8 .
qed

lemma final_config_Sync:
  assumes "\<not> mAbort s"
  shows "Sync s = Inr (shared (final_config s))"
  using assms by (simp add: Sync_unfold final_config_def)

theorem Sync_steps_in_fixed_order_witness:
  "reachable (projr one_sent) (final_config (projr one_sent)) \<and>
   events (final_config (projr one_sent)) =
     [(0, DoTagSizeUpdate), (0, DoProcessGetRequests), (1, DoTagSizeUpdate), (1, DoProcessGetRequests),
      (0, DoProcessPopRequests), (0, DoProcessSendRequests), (0, DoProcessPutRequests),
      (1, DoProcessPopRequests), (1, DoProcessSendRequests), (1, DoProcessPutRequests)]
     @ (0, DoClearPutBuffer) # [(0, DoProcessPushRequests), (1, DoClearPutBuffer), (1, DoProcessPushRequests)] \<and>
   (1, DoProcessPutRequests) \<in> set
     [(0, DoTagSizeUpdate), (0, DoProcessGetRequests), (1, DoTagSizeUpdate), (1, DoProcessGetRequests),
      (0, DoProcessPopRequests), (0, DoProcessSendRequests), (0, DoProcessPutRequests),
      (1, DoProcessPopRequests), (1, DoProcessSendRequests), (1, DoProcessPutRequests)] \<and>
   Sync (projr one_sent) = Inr (shared (final_config (projr one_sent)))"
proof -
  let ?s = "projr one_sent"
  let ?es1 = "[(0, DoTagSizeUpdate), (0, DoProcessGetRequests), (1, DoTagSizeUpdate), (1, DoProcessGetRequests),
      (0, DoProcessPopRequests), (0, DoProcessSendRequests), (0, DoProcessPutRequests),
      (1, DoProcessPopRequests), (1, DoProcessSendRequests), (1, DoProcessPutRequests)]"
  let ?es2 = "[(0, DoProcessPushRequests), (1, DoClearPutBuffer), (1, DoProcessPushRequests)]"
  have d: "\<not> mAbort ?s" "mProcCount ?s = 2"
    by code_simp+
  have r: "reachable ?s (final_config ?s)"
    using d(1) by (rule Sync_schedule_reachable)
  have "[0..<2] = [0, Suc 0]" by (simp add: upt_rec)
  then have e: "events (final_config ?s) = ?es1 @ (0, DoClearPutBuffer) # ?es2"
    by (simp add: final_config_def segment_events_def d(2))
  from Sync_steps_in_fixed_order[OF r]
  have "\<forall>es1 p i es2. events (final_config ?s) = es1 @ (p, i) # es2 \<longrightarrow>
        (\<forall>q<mProcCount ?s.
           (i \<in> {DoClearPutBuffer, DoProcessPushRequests} \<longrightarrow> (q, DoProcessPutRequests) \<in> set es1))"
    by blast
  with e have "\<forall>q<mProcCount ?s. (q, DoProcessPutRequests) \<in> set ?es1" by blast
  with d(2) have m: "(1, DoProcessPutRequests) \<in> set ?es1" by simp
  from r e m final_config_Sync[OF d(1)] show ?thesis by blast
qed

section \<open>Send and its delivery at Sync\<close>

lemma square_nth: "square P q \<Longrightarrow> a < P \<Longrightarrow> length (q ! a) = P"
  by (simp add: square_def list_all_length)

lemma square_length: "square P q \<Longrightarrow> length q = P"
  by (simp add: square_def)

lemma length_nth_update2:
  "n < length q \<Longrightarrow> length (q[a := (q ! a)[b := v]] ! n) = length (q ! n)"
  by (cases "n = a") simp_all

lemma square_SetQueueToMe [simp]: "square P (SetQueueToMe a b v q) = square P q"
  by (simp add: square_def SetQueueToMe_def list_all_length length_nth_update2 cong: conj_cong)

lemma square_SetQueueFromMe [simp]: "square P (SetQueueFromMe a b v q) = square P q"
  by (simp add: square_def SetQueueFromMe_def list_all_length length_nth_update2 cong: conj_cong)

lemma nth_SetQueueToMe:
  "square P q \<Longrightarrow> a < P \<Longrightarrow> b < P \<Longrightarrow> x < P \<Longrightarrow> y < P \<Longrightarrow>
   SetQueueToMe a b v q ! x ! y = (if x = a \<and> y = b then v else q ! x ! y)"
  by (auto simp: SetQueueToMe_def nth_list_update square_nth square_length)

lemma nth_SetQueueFromMe:
  "square P q \<Longrightarrow> a < P \<Longrightarrow> b < P \<Longrightarrow> x < P \<Longrightarrow> y < P \<Longrightarrow>
   SetQueueFromMe a b v q ! x ! y = (if x = b \<and> y = a then v else q ! x ! y)"
  by (auto simp: SetQueueFromMe_def nth_list_update square_nth square_length)

lemma stack_bytes_append_left:
  "loc + n \<le> length buf \<Longrightarrow> stack_bytes (buf @ ext) loc n = stack_bytes buf loc n"
  by (simp add: stack_bytes_def)

lemma stack_bytes_append_right:
  "stack_bytes (buf @ ext) (loc + length buf) n = stack_bytes ext loc n"
  by (simp add: stack_bytes_def)

lemma stack_bytes_whole: "stack_bytes (buf @ bs) (length buf) (length bs) = bs"
  by (simp add: stack_bytes_def)

lemma message_append:
  "in_arena buf r \<Longrightarrow> message (buf @ ext) r = message buf r"
  by (simp add: in_arena_def message_def stack_bytes_append_left)

lemma in_arena_append: "in_arena buf r \<Longrightarrow> in_arena (buf @ ext) r"
  by (simp add: in_arena_def)

lemma message_shift:
  "message (buf @ ext) (shift_request (length buf) r) = message ext r"
  by (simp add: message_def shift_request_def stack_bytes_append_right)

lemma in_arena_shift:
  "in_arena ext r \<Longrightarrow> in_arena (buf @ ext) (shift_request (length buf) r)"
  by (simp add: in_arena_def shift_request_def)

lemma map_message_append:
  "list_all (in_arena buf) rs \<Longrightarrow> map (message (buf @ ext)) rs = map (message buf) rs"
  by (induction rs) (simp_all add: message_append)

lemma list_all_in_arena_append:
  "list_all (in_arena buf) rs \<Longrightarrow> list_all (in_arena (buf @ ext)) rs"
  by (induction rs) (simp_all add: in_arena_append)

lemma sizedD:
  assumes "sized s"
  shows "square (mProcCount s) (mTmpSendRequests s)" "square (mProcCount s) (mTmpSendBuffers s)"
    "length (mSendRequests s) = mProcCount s" "length (mSendBuffers s) = mProcCount s"
    "length (mSendReceivedIndex s) = mProcCount s"
    "square (mProcCount s) (mPutRequests s)" "square (mProcCount s) (mGetRequests s)"
    "length (mPutBufferStacks s) = mProcCount s"
  using assms by (simp_all add: sized_def Let_def)

lemma Send_Inr:
  assumes "Send tpid pid tag payload sz s = Inr s'"
  shows "tpid < mProcCount s" "pid < mProcCount s" "sized s"
    "s' = s\<lparr>
       mTmpSendBuffers := SetQueueFromMe pid tpid
         (GetQueueFromMe pid tpid (mTmpSendBuffers s) @ read_bytes (memory s) payload sz
            @ read_bytes (memory s) tag (mTagSize s)) (mTmpSendBuffers s),
       mTmpSendRequests := SetQueueFromMe pid tpid
         (GetQueueFromMe pid tpid (mTmpSendRequests s) @
            [\<lparr>send_bufferLocation = length (GetQueueFromMe pid tpid (mTmpSendBuffers s)),
              send_bufferSize = sz,
              send_tagLocation = length (GetQueueFromMe pid tpid (mTmpSendBuffers s)) + sz,
              send_tagSize = mTagSize s\<rparr>]) (mTmpSendRequests s)\<rparr>"
  using assms
  by (simp_all add: Send_def Let_def Alloc_def read_bytes_def split: if_splits)

lemma Send_keeps:
  assumes "Send tpid pid tag payload sz s = Inr s'"
  shows "mProcCount s' = mProcCount s" "memory s' = memory s" "mTagSize s' = mTagSize s"
    "mAbort s' = mAbort s" "mSendRequests s' = mSendRequests s" "mSendBuffers s' = mSendBuffers s"
    "sized s'"
  using Send_Inr(3)[OF assms] unfolding Send_Inr(4)[OF assms]
  by (simp_all add: sized_def Let_def)

lemma Send_staged:
  assumes "Send tpid pid tag payload sz s = Inr s'" "staging_ok s"
    "src < mProcCount s" "dst < mProcCount s"
  shows "staged src dst s' =
     (if src = tpid \<and> dst = pid
      then staged src dst s @ [(read_bytes (memory s) payload sz, read_bytes (memory s) tag (mTagSize s))]
      else staged src dst s)"
    and "list_all (in_arena (GetQueueFromMe dst src (mTmpSendBuffers s')))
                  (GetQueueFromMe dst src (mTmpSendRequests s'))"
proof -
  note S = Send_Inr[OF assms(1)]
  note sq = sizedD(1,2)[OF S(3)]
  let ?tb = "GetQueueFromMe pid tpid (mTmpSendBuffers s)"
  let ?q = "GetQueueFromMe pid tpid (mTmpSendRequests s)"
  let ?pl = "read_bytes (memory s) payload sz"
  let ?tg = "read_bytes (memory s) tag (mTagSize s)"
  let ?r = "\<lparr>send_bufferLocation = length ?tb, send_bufferSize = sz,
              send_tagLocation = length ?tb + sz, send_tagSize = mTagSize s\<rparr>"
  have old: "list_all (in_arena (GetQueueFromMe dst src (mTmpSendBuffers s)))
                      (GetQueueFromMe dst src (mTmpSendRequests s))"
    using assms(2-4) by (simp add: staging_ok_def)
  have len: "length ?pl = sz" "length ?tg = mTagSize s" by (simp_all add: read_bytes_def)
  have newmsg: "message (?tb @ ?pl @ ?tg) ?r = (?pl, ?tg)"
    using len by (simp add: message_def stack_bytes_def)
  have newin: "in_arena (?tb @ ?pl @ ?tg) ?r"
    using len by (simp add: in_arena_def)
  have b: "GetQueueFromMe dst src (mTmpSendBuffers s') =
      (if src = tpid \<and> dst = pid then ?tb @ ?pl @ ?tg else GetQueueFromMe dst src (mTmpSendBuffers s))"
    and q: "GetQueueFromMe dst src (mTmpSendRequests s') =
      (if src = tpid \<and> dst = pid then ?q @ [?r] else GetQueueFromMe dst src (mTmpSendRequests s))"
    unfolding S(4) using sq S(1,2) assms(3,4)
    by (simp_all add: GetQueueFromMe_def nth_SetQueueFromMe)
  show "staged src dst s' =
     (if src = tpid \<and> dst = pid
      then staged src dst s @ [(read_bytes (memory s) payload sz, read_bytes (memory s) tag (mTagSize s))]
      else staged src dst s)"
  proof (cases "src = tpid \<and> dst = pid")
    case True
    with old have o: "list_all (in_arena ?tb) ?q" by simp
    show ?thesis
      unfolding staged_def b q using True newmsg map_message_append[OF o, of "?pl @ ?tg"]
      by simp
  next
    case False
    then show ?thesis unfolding staged_def b q by auto
  qed
  show "list_all (in_arena (GetQueueFromMe dst src (mTmpSendBuffers s')))
                  (GetQueueFromMe dst src (mTmpSendRequests s'))"
  proof (cases "src = tpid \<and> dst = pid")
    case True
    with old have o: "list_all (in_arena ?tb) ?q" by simp
    show ?thesis
      unfolding b q using True newin list_all_in_arena_append[OF o, of "?pl @ ?tg"]
      by simp
  next
    case False
    then show ?thesis unfolding b q using old by auto
  qed
qed

lemma Send_staging_ok:
  assumes "Send tpid pid tag payload sz s = Inr s'" "staging_ok s"
  shows "staging_ok s'"
  unfolding staging_ok_def Send_keeps(1)[OF assms(1)]
  using Send_staged(2)[OF assms] by blast

lemma issue_result:
  assumes "issue cs s = Inr s1" "staging_ok s"
  shows "mProcCount s1 = mProcCount s \<and> memory s1 = memory s \<and> mTagSize s1 = mTagSize s \<and>
     mAbort s1 = mAbort s \<and> staging_ok s1 \<and> (cs \<noteq> [] \<longrightarrow> sized s1) \<and>
     (\<forall>src<mProcCount s. \<forall>dst<mProcCount s.
        staged src dst s1 =
          staged src dst s @ map (sent_message s) (filter (\<lambda>c. caller c = src \<and> target c = dst) cs))"
  using assms
proof (induction cs arbitrary: s)
  case Nil
  then show ?case by simp
next
  case (Cons c cs)
  from Cons.prems(1) obtain s' where
    s': "Send (caller c) (target c) (tag_addr c) (payload_addr c) (payload_size c) s = Inr s'"
    and rest: "issue cs s' = Inr s1"
    by (auto simp: then_do_def split: sum.splits)
  note K = Send_keeps[OF s']
  have ok': "staging_ok s'" by (rule Send_staging_ok[OF s' Cons.prems(2)])
  note IH = Cons.IH[OF rest ok']
  have sz: "sized s1"
  proof (cases "cs = []")
    case True
    with rest K(7) show ?thesis by simp
  next
    case False
    with IH show ?thesis by simp
  qed
  have msg: "sent_message s' = sent_message s"
    by (simp add: sent_message_def K fun_eq_iff)
  have st: "staged src dst s1 =
          staged src dst s @ map (sent_message s) (filter (\<lambda>c. caller c = src \<and> target c = dst) (c # cs))"
    if "src < mProcCount s" "dst < mProcCount s" for src dst
  proof -
    from IH that K(1) have "staged src dst s1 =
        staged src dst s' @ map (sent_message s) (filter (\<lambda>c. caller c = src \<and> target c = dst) cs)"
      by (simp add: msg)
    then show ?thesis
      unfolding Send_staged(1)[OF s' Cons.prems(2) that]
      by (auto simp: sent_message_def)
  qed
  from IH K sz st show ?case by simp
qed

lemma list_all_in_arena_shift:
  "list_all (in_arena ext) rs \<Longrightarrow> list_all (in_arena (buf @ ext)) (map (shift_request (length buf)) rs)"
  by (induction rs) (simp_all add: in_arena_shift)

lemma delivery_invD:
  assumes "delivery_inv pid s n (offset, t)"
  shows "mProcCount t = mProcCount s" "square (mProcCount s) (mTmpSendRequests t)"
    "square (mProcCount s) (mTmpSendBuffers t)"
    "length (mSendRequests t) = mProcCount s" "length (mSendBuffers t) = mProcCount s"
    "offset = length (mSendBuffers t ! pid)"
    "delivered pid t = concat (map (\<lambda>src. staged src pid s) [0..<n])"
    "list_all (in_arena (mSendBuffers t ! pid)) (mSendRequests t ! pid)"
    "\<And>src d. src < mProcCount s \<Longrightarrow> d < mProcCount s \<Longrightarrow> d \<noteq> pid \<or> n \<le> src \<Longrightarrow>
       mTmpSendRequests t ! src ! d = mTmpSendRequests s ! src ! d \<and>
       mTmpSendBuffers t ! src ! d = mTmpSendBuffers s ! src ! d"
    "\<And>src. src < n \<Longrightarrow> mTmpSendRequests t ! src ! pid = []"
    "\<And>d. d < mProcCount s \<Longrightarrow> d \<noteq> pid \<Longrightarrow>
       mSendRequests t ! d = mSendRequests s ! d \<and> mSendBuffers t ! d = mSendBuffers s ! d"
  using assms unfolding delivery_inv_def Let_def fst_conv snd_conv by blast+

lemma delivery_invI:
  assumes "mProcCount t = mProcCount s" "square (mProcCount s) (mTmpSendRequests t)"
    "square (mProcCount s) (mTmpSendBuffers t)"
    "length (mSendRequests t) = mProcCount s" "length (mSendBuffers t) = mProcCount s"
    "offset = length (mSendBuffers t ! pid)"
    "delivered pid t = concat (map (\<lambda>src. staged src pid s) [0..<n])"
    "list_all (in_arena (mSendBuffers t ! pid)) (mSendRequests t ! pid)"
    "\<And>src d. src < mProcCount s \<Longrightarrow> d < mProcCount s \<Longrightarrow> d \<noteq> pid \<or> n \<le> src \<Longrightarrow>
       mTmpSendRequests t ! src ! d = mTmpSendRequests s ! src ! d \<and>
       mTmpSendBuffers t ! src ! d = mTmpSendBuffers s ! src ! d"
    "\<And>src. src < n \<Longrightarrow> mTmpSendRequests t ! src ! pid = []"
    "\<And>d. d < mProcCount s \<Longrightarrow> d \<noteq> pid \<Longrightarrow>
       mSendRequests t ! d = mSendRequests s ! d \<and> mSendBuffers t ! d = mSendBuffers s ! d"
  shows "delivery_inv pid s n (offset, t)"
  unfolding delivery_inv_def Let_def fst_conv snd_conv using assms by blast

lemma delivery_step:
  assumes inv: "delivery_inv pid s n (offset, t)"
    and n: "n < mProcCount s" and pid: "pid < mProcCount s"
    and ok: "list_all (in_arena (mTmpSendBuffers s ! n ! pid)) (mTmpSendRequests s ! n ! pid)"
  shows "delivery_inv pid s (Suc n) (ProcessSendRequests_owner pid n (offset, t))"
proof -
  note I = delivery_invD[OF inv]
  let ?q = "mTmpSendRequests s ! n ! pid"
  let ?tb = "mTmpSendBuffers s ! n ! pid"
  let ?sb = "mSendBuffers t ! pid"
  let ?old = "mSendRequests t ! pid"
  have q: "mTmpSendRequests t ! n ! pid = ?q" and b: "mTmpSendBuffers t ! n ! pid = ?tb"
    using I(9)[OF n pid] by simp_all
  have st: "staged n pid s = map (message ?tb) ?q"
    by (simp add: staged_def GetQueueFromMe_def)
  have up: "concat (map (\<lambda>src. staged src pid s) [0..<Suc n]) =
            concat (map (\<lambda>src. staged src pid s) [0..<n]) @ map (message ?tb) ?q"
    by (simp add: st)
  show ?thesis
  proof (cases "?q = []")
    case True
    have same: "ProcessSendRequests_owner pid n (offset, t) = (offset, t)"
      using True by (simp add: ProcessSendRequests_owner_def GetQueueToMe_def q)
    show ?thesis
      unfolding same
    proof (rule delivery_invI)
      show "delivered pid t = concat (map (\<lambda>src. staged src pid s) [0..<Suc n])"
        unfolding up using I(7) True by simp
      show "mTmpSendRequests t ! src ! pid = []" if "src < Suc n" for src
        using that I(10)[of src] q True by (cases "src = n") simp_all
      show "mTmpSendRequests t ! src ! d = mTmpSendRequests s ! src ! d \<and>
            mTmpSendBuffers t ! src ! d = mTmpSendBuffers s ! src ! d"
        if "src < mProcCount s" "d < mProcCount s" "d \<noteq> pid \<or> Suc n \<le> src" for src d
        using I(9)[OF that(1,2)] that(3) by auto
    qed (use I in simp_all)
  next
    case False
    let ?t' = "t\<lparr>mSendRequests := (mSendRequests t)[pid := ?old @ map (shift_request offset) ?q],
                 mTmpSendRequests := SetQueueToMe n pid [] (mTmpSendRequests t),
                 mSendBuffers := (mSendBuffers t)[pid := ?sb @ ?tb],
                 mTmpSendBuffers := SetQueueToMe n pid [] (mTmpSendBuffers t)\<rparr>"
    have res: "ProcessSendRequests_owner pid n (offset, t) = (offset + length ?tb, ?t')"
      using False
      by (simp add: ProcessSendRequests_owner_def GetQueueToMe_def q b Let_def Size_def Merge_def Clear_def)
    have pl: "pid < length (mSendRequests t)" "pid < length (mSendBuffers t)"
      using pid I(4,5) by simp_all
    show ?thesis
      unfolding res
    proof (rule delivery_invI)
      show "mProcCount ?t' = mProcCount s" using I(1) by simp
      show "square (mProcCount s) (mTmpSendRequests ?t')" using I(2) by simp
      show "square (mProcCount s) (mTmpSendBuffers ?t')" using I(3) by simp
      show "length (mSendRequests ?t') = mProcCount s" using I(4) by simp
      show "length (mSendBuffers ?t') = mProcCount s" using I(5) by simp
      show "offset + length ?tb = length (mSendBuffers ?t' ! pid)"
        using pl I(6) by simp
      show "delivered pid ?t' = concat (map (\<lambda>src. staged src pid s) [0..<Suc n])"
        unfolding up I(7)[symmetric]
        using pl map_message_append[OF I(8), of ?tb]
        by (simp add: delivered_def I(6) message_shift)
      show "list_all (in_arena (mSendBuffers ?t' ! pid)) (mSendRequests ?t' ! pid)"
        using pl list_all_in_arena_append[OF I(8), of ?tb] list_all_in_arena_shift[OF ok, of ?sb]
        by (simp add: I(6))
      show "mTmpSendRequests ?t' ! src ! d = mTmpSendRequests s ! src ! d \<and>
            mTmpSendBuffers ?t' ! src ! d = mTmpSendBuffers s ! src ! d"
        if "src < mProcCount s" "d < mProcCount s" "d \<noteq> pid \<or> Suc n \<le> src" for src d
      proof -
        from that(3) have ne: "\<not> (src = n \<and> d = pid)" by auto
        from that(3) have "d \<noteq> pid \<or> n \<le> src" by auto
        from I(9)[OF that(1,2) this] ne show ?thesis
          using nth_SetQueueToMe[OF I(2) n pid that(1,2)] nth_SetQueueToMe[OF I(3) n pid that(1,2)]
          by auto
      qed
      show "mTmpSendRequests ?t' ! src ! pid = []" if "src < Suc n" for src
      proof -
        from that n have s: "src < mProcCount s" by simp
        show ?thesis
          using nth_SetQueueToMe[OF I(2) n pid s pid] I(10)[of src] that
          by (cases "src = n") simp_all
      qed
      show "mSendRequests ?t' ! d = mSendRequests s ! d \<and> mSendBuffers ?t' ! d = mSendBuffers s ! d"
        if "d < mProcCount s" "d \<noteq> pid" for d
        using I(11)[OF that] that(2) by simp
    qed
  qed
qed

lemma delivery_loop:
  assumes sq: "square (mProcCount s) (mTmpSendRequests s)" "square (mProcCount s) (mTmpSendBuffers s)"
    and len: "length (mSendRequests s) = mProcCount s" "length (mSendBuffers s) = mProcCount s"
    and pid: "pid < mProcCount s"
    and ok: "\<And>src. src < mProcCount s \<Longrightarrow>
       list_all (in_arena (mTmpSendBuffers s ! src ! pid)) (mTmpSendRequests s ! src ! pid)"
    and n: "n \<le> mProcCount s"
  shows "delivery_inv pid s n
     (fold (ProcessSendRequests_owner pid) [0..<n]
        (0, s\<lparr>mSendRequests := (mSendRequests s)[pid := []],
               mSendReceivedIndex := (mSendReceivedIndex s)[pid := 0],
               mSendBuffers := (mSendBuffers s)[pid := []]\<rparr>))"
  using n
proof (induction n)
  case 0
  show ?case
    unfolding fold_simps upt_0
    using sq len pid by (intro delivery_invI) (simp_all add: delivered_def)
next
  case (Suc n)
  let ?r = "fold (ProcessSendRequests_owner pid) [0..<n]
        (0, s\<lparr>mSendRequests := (mSendRequests s)[pid := []],
               mSendReceivedIndex := (mSendReceivedIndex s)[pid := 0],
               mSendBuffers := (mSendBuffers s)[pid := []]\<rparr>)"
  from Suc have n: "n < mProcCount s" and inv: "delivery_inv pid s n (fst ?r, snd ?r)" by simp_all
  from delivery_step[OF inv n pid ok[OF n]] show ?case by simp
qed

lemma ProcessSendRequests_delivers:
  assumes sq: "square (mProcCount s) (mTmpSendRequests s)" "square (mProcCount s) (mTmpSendBuffers s)"
    and len: "length (mSendRequests s) = mProcCount s" "length (mSendBuffers s) = mProcCount s"
    and pid: "pid < mProcCount s"
    and ok: "\<And>src. src < mProcCount s \<Longrightarrow>
       list_all (in_arena (mTmpSendBuffers s ! src ! pid)) (mTmpSendRequests s ! src ! pid)"
  shows "\<exists>offset. delivery_inv pid s (mProcCount s) (offset, ProcessSendRequests pid s)"
proof -
  let ?r = "fold (ProcessSendRequests_owner pid) [0..<mProcCount s]
        (0, s\<lparr>mSendRequests := (mSendRequests s)[pid := []],
               mSendReceivedIndex := (mSendReceivedIndex s)[pid := 0],
               mSendBuffers := (mSendBuffers s)[pid := []]\<rparr>)"
  have "delivery_inv pid s (mProcCount s) (fst ?r, snd ?r)"
    using delivery_loop[OF sq len pid ok, of "mProcCount s"] by simp
  moreover have "ProcessSendRequests pid s = snd ?r"
    by (simp add: ProcessSendRequests_def Let_def Clear_def)
  ultimately show ?thesis by metis
qed

lemma delivered_uptoD:
  assumes "delivered_upto s m t"
  shows "mProcCount t = mProcCount s" "square (mProcCount s) (mTmpSendRequests t)"
    "square (mProcCount s) (mTmpSendBuffers t)"
    "length (mSendRequests t) = mProcCount s" "length (mSendBuffers t) = mProcCount s"
    "\<And>d. d < m \<Longrightarrow> delivered d t = concat (map (\<lambda>src. staged src d s) [0..<mProcCount s])"
    "\<And>d. d < m \<Longrightarrow> list_all (in_arena (mSendBuffers t ! d)) (mSendRequests t ! d)"
    "\<And>d src. d < m \<Longrightarrow> src < mProcCount s \<Longrightarrow> mTmpSendRequests t ! src ! d = []"
    "\<And>src d. src < mProcCount s \<Longrightarrow> d < mProcCount s \<Longrightarrow> m \<le> d \<Longrightarrow>
       mTmpSendRequests t ! src ! d = mTmpSendRequests s ! src ! d \<and>
       mTmpSendBuffers t ! src ! d = mTmpSendBuffers s ! src ! d"
  using assms unfolding delivered_upto_def Let_def by blast+

lemma delivered_uptoI:
  assumes "mProcCount t = mProcCount s" "square (mProcCount s) (mTmpSendRequests t)"
    "square (mProcCount s) (mTmpSendBuffers t)"
    "length (mSendRequests t) = mProcCount s" "length (mSendBuffers t) = mProcCount s"
    "\<And>d. d < m \<Longrightarrow> delivered d t = concat (map (\<lambda>src. staged src d s) [0..<mProcCount s])"
    "\<And>d. d < m \<Longrightarrow> list_all (in_arena (mSendBuffers t ! d)) (mSendRequests t ! d)"
    "\<And>d src. d < m \<Longrightarrow> src < mProcCount s \<Longrightarrow> mTmpSendRequests t ! src ! d = []"
    "\<And>src d. src < mProcCount s \<Longrightarrow> d < mProcCount s \<Longrightarrow> m \<le> d \<Longrightarrow>
       mTmpSendRequests t ! src ! d = mTmpSendRequests s ! src ! d \<and>
       mTmpSendBuffers t ! src ! d = mTmpSendBuffers s ! src ! d"
  shows "delivered_upto s m t"
  unfolding delivered_upto_def Let_def using assms by blast

lemma delivered_cong:
  "mSendRequests t' ! d = mSendRequests t ! d \<Longrightarrow> mSendBuffers t' ! d = mSendBuffers t ! d \<Longrightarrow>
   delivered d t' = delivered d t"
  by (simp add: delivered_def)

lemma staged_cong:
  "mTmpSendRequests t' ! src ! d = mTmpSendRequests t ! src ! d \<Longrightarrow>
   mTmpSendBuffers t' ! src ! d = mTmpSendBuffers t ! src ! d \<Longrightarrow>
   staged src d t' = staged src d t"
  by (simp add: staged_def GetQueueFromMe_def)

lemma staging_okD:
  "staging_ok s \<Longrightarrow> src < mProcCount s \<Longrightarrow> d < mProcCount s \<Longrightarrow>
   list_all (in_arena (mTmpSendBuffers s ! src ! d)) (mTmpSendRequests s ! src ! d)"
  by (simp add: staging_ok_def GetQueueFromMe_def)

lemma delivered_upto_step:
  assumes inv: "delivered_upto s m t" and m: "m < mProcCount s" and ok: "staging_ok s"
  shows "delivered_upto s (Suc m)
     (ProcessPutRequests m (ProcessSendRequests m (ProcessPopRequests m t)))"
proof -
  note U = delivered_uptoD[OF inv]
  let ?P = "mProcCount s"
  let ?tp = "ProcessPopRequests m t"
  let ?ts = "ProcessSendRequests m ?tp"
  let ?t' = "ProcessPutRequests m ?ts"
  have col: "mTmpSendRequests ?tp ! src ! m = mTmpSendRequests s ! src ! m \<and>
             mTmpSendBuffers ?tp ! src ! m = mTmpSendBuffers s ! src ! m" if "src < ?P" for src
    using U(9)[OF that m] by simp
  have "\<exists>offset. delivery_inv m ?tp (mProcCount ?tp) (offset, ?ts)"
  proof (rule ProcessSendRequests_delivers)
    show "square (mProcCount ?tp) (mTmpSendRequests ?tp)" using U(1,2) by simp
    show "square (mProcCount ?tp) (mTmpSendBuffers ?tp)" using U(1,3) by simp
    show "length (mSendRequests ?tp) = mProcCount ?tp" using U(1,4) by simp
    show "length (mSendBuffers ?tp) = mProcCount ?tp" using U(1,5) by simp
    show "m < mProcCount ?tp" using U(1) m by simp
    show "list_all (in_arena (mTmpSendBuffers ?tp ! src ! m)) (mTmpSendRequests ?tp ! src ! m)"
      if "src < mProcCount ?tp" for src
    proof -
      from that U(1) have s: "src < ?P" by simp
      from staging_okD[OF ok s m] col[OF s] show ?thesis by simp
    qed
  qed
  then obtain offset where D: "delivery_inv m ?tp ?P (offset, ?ts)" using U(1) by auto
  note I = delivery_invD[OF D]
  have P': "mProcCount ?tp = ?P" using U(1) by simp
  have st: "staged src m ?tp = staged src m s" if "src < ?P" for src
    using col[OF that] by (intro staged_cong) simp_all
  have cc: "concat (map (\<lambda>src. staged src m ?tp) [0..<?P]) = concat (map (\<lambda>src. staged src m s) [0..<?P])"
    by (rule arg_cong[where f=concat], rule map_cong) (simp_all add: st)
  show ?thesis
  proof (rule delivered_uptoI)
    show "mProcCount ?t' = ?P" using I(1) P' by simp
    show "square ?P (mTmpSendRequests ?t')" using I(2) P' by simp
    show "square ?P (mTmpSendBuffers ?t')" using I(3) P' by simp
    show "length (mSendRequests ?t') = ?P" using I(4) P' by simp
    show "length (mSendBuffers ?t') = ?P" using I(5) P' by simp
    show "delivered d ?t' = concat (map (\<lambda>src. staged src d s) [0..<?P])" if "d < Suc m" for d
    proof (cases "d = m")
      case True
      have "delivered m ?t' = delivered m ?ts" by (intro delivered_cong) simp_all
      with I(7) cc P' True show ?thesis by simp
    next
      case False
      with that m have d: "d < m" "d < ?P" by simp_all
      have "delivered d ?t' = delivered d t"
        using I(11)[unfolded P', OF d(2) False] by (intro delivered_cong) simp_all
      with U(6)[OF d(1)] show ?thesis by simp
    qed
    show "list_all (in_arena (mSendBuffers ?t' ! d)) (mSendRequests ?t' ! d)" if "d < Suc m" for d
    proof (cases "d = m")
      case True
      with I(8) show ?thesis by simp
    next
      case False
      with that m have d: "d < m" "d < ?P" by simp_all
      from I(11)[unfolded P', OF d(2) False] U(7)[OF d(1)] show ?thesis by simp
    qed
    show "mTmpSendRequests ?t' ! src ! d = []" if "d < Suc m" "src < ?P" for d src
    proof (cases "d = m")
      case True
      with I(10)[OF that(2)] show ?thesis by simp
    next
      case False
      with that m have d: "d < m" "d < ?P" by simp_all
      from I(9)[unfolded P', OF that(2) d(2)] False U(8)[OF d(1) that(2)] show ?thesis by simp
    qed
    show "mTmpSendRequests ?t' ! src ! d = mTmpSendRequests s ! src ! d \<and>
          mTmpSendBuffers ?t' ! src ! d = mTmpSendBuffers s ! src ! d"
      if "src < ?P" "d < ?P" "Suc m \<le> d" for src d
    proof -
      from that(3) have ne: "d \<noteq> m" and le: "m \<le> d" by simp_all
      from I(9)[unfolded P', OF that(1,2)] ne U(9)[OF that(1,2) le] show ?thesis by simp
    qed
  qed
qed

lemma delivered_upto_all:
  assumes "square (mProcCount s) (mTmpSendRequests s)" "square (mProcCount s) (mTmpSendBuffers s)"
    "length (mSendRequests s) = mProcCount s" "length (mSendBuffers s) = mProcCount s"
    and "staging_ok s" "m \<le> mProcCount s"
  shows "delivered_upto s m
     (fold (\<lambda>pid s. ProcessPutRequests pid (ProcessSendRequests pid (ProcessPopRequests pid s))) [0..<m] s)"
  using assms(6)
proof (induction m)
  case 0
  show ?case using assms(1-4) by (intro delivered_uptoI) simp_all
next
  case (Suc m)
  then have m: "m < mProcCount s" and
    inv: "delivered_upto s m
     (fold (\<lambda>pid s. ProcessPutRequests pid (ProcessSendRequests pid (ProcessPopRequests pid s))) [0..<m] s)"
    by simp_all
  from delivered_upto_step[OF inv m assms(5)] show ?case by simp
qed

lemma exec_instr_send_fields:
  assumes "i \<noteq> DoProcessSendRequests"
  shows "mTmpSendRequests (exec_instr i pid s) = mTmpSendRequests s"
    "mTmpSendBuffers (exec_instr i pid s) = mTmpSendBuffers s"
    "mSendRequests (exec_instr i pid s) = mSendRequests s"
    "mSendBuffers (exec_instr i pid s) = mSendBuffers s"
    "mSendReceivedIndex (exec_instr i pid s) = mSendReceivedIndex s"
  using assms by (cases i; simp)+

lemma fold_preserves_on:
  "(\<And>x s. x \<in> set xs \<Longrightarrow> g (f x s) = g s) \<Longrightarrow> g (fold f xs s) = g s"
  by (induction xs arbitrary: s) simp_all

lemma fold_exec_send_fields:
  assumes "DoProcessSendRequests \<notin> set seg"
  shows "mTmpSendRequests (fold (\<lambda>i. exec_instr i pid) seg s) = mTmpSendRequests s"
    "mTmpSendBuffers (fold (\<lambda>i. exec_instr i pid) seg s) = mTmpSendBuffers s"
    "mSendRequests (fold (\<lambda>i. exec_instr i pid) seg s) = mSendRequests s"
    "mSendBuffers (fold (\<lambda>i. exec_instr i pid) seg s) = mSendBuffers s"
    "mSendReceivedIndex (fold (\<lambda>i. exec_instr i pid) seg s) = mSendReceivedIndex s"
proof -
  have ne: "i \<noteq> DoProcessSendRequests" if "i \<in> set seg" for i using that assms by auto
  show "mTmpSendRequests (fold (\<lambda>i. exec_instr i pid) seg s) = mTmpSendRequests s"
    by (rule fold_preserves_on) (simp add: exec_instr_send_fields ne)
  show "mTmpSendBuffers (fold (\<lambda>i. exec_instr i pid) seg s) = mTmpSendBuffers s"
    by (rule fold_preserves_on) (simp add: exec_instr_send_fields ne)
  show "mSendRequests (fold (\<lambda>i. exec_instr i pid) seg s) = mSendRequests s"
    by (rule fold_preserves_on) (simp add: exec_instr_send_fields ne)
  show "mSendBuffers (fold (\<lambda>i. exec_instr i pid) seg s) = mSendBuffers s"
    by (rule fold_preserves_on) (simp add: exec_instr_send_fields ne)
  show "mSendReceivedIndex (fold (\<lambda>i. exec_instr i pid) seg s) = mSendReceivedIndex s"
    by (rule fold_preserves_on) (simp add: exec_instr_send_fields ne)
qed

lemma all_procs_send_fields:
  assumes "DoProcessSendRequests \<notin> set seg"
  shows "mTmpSendRequests (all_procs seg s) = mTmpSendRequests s"
    "mTmpSendBuffers (all_procs seg s) = mTmpSendBuffers s"
    "mSendRequests (all_procs seg s) = mSendRequests s"
    "mSendBuffers (all_procs seg s) = mSendBuffers s"
    "mSendReceivedIndex (all_procs seg s) = mSendReceivedIndex s"
  using assms by (simp_all add: all_procs_def fold_keeps fold_exec_send_fields)

lemma Sync_delivers:
  assumes "sized s" "staging_ok s" "\<not> mAbort s"
  shows "\<exists>s2. Sync s = Inr s2 \<and> mProcCount s2 = mProcCount s \<and>
     delivered_upto s (mProcCount s) s2"
proof -
  let ?A = "all_procs [DoTagSizeUpdate, DoProcessGetRequests] s"
  let ?B = "all_procs [DoProcessPopRequests, DoProcessSendRequests, DoProcessPutRequests] ?A"
  let ?C = "all_procs [DoClearPutBuffer, DoProcessPushRequests] ?B"
  have sync: "Sync s = Inr ?C" using assms(3) by (simp add: Sync_unfold)
  have A: "mTmpSendRequests ?A = mTmpSendRequests s" "mTmpSendBuffers ?A = mTmpSendBuffers s"
    "mSendRequests ?A = mSendRequests s" "mSendBuffers ?A = mSendBuffers s"
    "mProcCount ?A = mProcCount s"
    by (simp_all add: all_procs_send_fields)
  have okA: "staging_ok ?A" using assms(2) by (simp add: staging_ok_def A)
  have B: "?B = fold (\<lambda>pid s. ProcessPutRequests pid (ProcessSendRequests pid (ProcessPopRequests pid s)))
                 [0..<mProcCount ?A] ?A"
    by (simp add: all_procs_def)
  have "delivered_upto ?A (mProcCount ?A) ?B"
    unfolding B using sizedD(1-4)[OF assms(1)] okA
    by (intro delivered_upto_all) (simp_all add: A)
  then have "delivered_upto s (mProcCount s) ?B"
    by (simp add: delivered_upto_def staged_def A)
  moreover have "mTmpSendRequests ?C = mTmpSendRequests ?B" "mTmpSendBuffers ?C = mTmpSendBuffers ?B"
    "mSendRequests ?C = mSendRequests ?B" "mSendBuffers ?C = mSendBuffers ?B"
    "mProcCount ?C = mProcCount ?B"
    by (simp_all add: all_procs_send_fields)
  ultimately have "delivered_upto s (mProcCount s) ?C"
    by (simp add: delivered_upto_def delivered_def)
  with sync show ?thesis by simp
qed

lemma Begin_sized:
  assumes "Begin 0 P s0 = Inr s"
  shows "sized s" "staging_ok s" "mProcCount s = P" "\<not> mAbort s"
  using assms
  by (auto simp: Begin_def StartTiming_def sized_def square_def ResetResize_def staging_ok_def
      GetQueueFromMe_def list_all_length split: if_splits)

text \<open>
  Claim C2.  Let a superstep start in a state in which every vector has P entries and
  the staged send requests lie within their staging arenas (as after \<open>Begin\<close>), and let
  the processes issue the sends \<open>cs\<close>, in this order.  Unless the run is aborted, Sync
  completes, and afterwards the delivered-send queue of every process \<open>dst\<close> holds, for
  the senders 0, 1, ..., P-1 in this order, the messages the sender had staged for
  \<open>dst\<close> followed by the messages of its sends to \<open>dst\<close> in the order of issue.  The
  message of a delivered request is what its payload and tag offsets select in the
  merged receive arena of \<open>dst\<close>: the payload bytes and the tag bytes passed to \<open>Send\<close>;
  and every delivered request lies within that arena.
\<close>

theorem Sends_delivered_in_order:
  assumes "sized s" "staging_ok s" "issue cs s = Inr s1" "\<not> mAbort s" "dst < mProcCount s"
  shows "\<exists>s2. Sync s1 = Inr s2 \<and>
     delivered dst s2 =
       concat (map (\<lambda>src. staged src dst s @
                      map (sent_message s) (filter (\<lambda>c. caller c = src \<and> target c = dst) cs))
                 [0..<mProcCount s]) \<and>
     list_all (in_arena (mSendBuffers s2 ! dst)) (mSendRequests s2 ! dst)"
proof -
  note R = issue_result[OF assms(3,2)]
  have sz1: "sized s1"
  proof (cases "cs = []")
    case True
    with assms(1,3) show ?thesis by simp
  next
    case False
    with R show ?thesis by simp
  qed
  from R have P: "mProcCount s1 = mProcCount s" and ok1: "staging_ok s1" and ab: "\<not> mAbort s1"
    using assms(4) by simp_all
  from Sync_delivers[OF sz1 ok1 ab] obtain s2 where
    s2: "Sync s1 = Inr s2" and U: "delivered_upto s1 (mProcCount s1) s2" by blast
  from delivered_uptoD(6,7)[OF U, of dst] assms(5) P
  have d: "delivered dst s2 = concat (map (\<lambda>src. staged src dst s1) [0..<mProcCount s])"
    and a: "list_all (in_arena (mSendBuffers s2 ! dst)) (mSendRequests s2 ! dst)"
    by simp_all
  have "map (\<lambda>src. staged src dst s1) [0..<mProcCount s] =
        map (\<lambda>src. staged src dst s @
                      map (sent_message s) (filter (\<lambda>c. caller c = src \<and> target c = dst) cs))
            [0..<mProcCount s]"
    using R assms(5) by (intro map_cong) simp_all
  with d a s2 show ?thesis by simp
qed

theorem Sends_delivered_in_order_witness:
  "sized (projr tagged) \<and> staging_ok (projr tagged) \<and> \<not> mAbort (projr tagged) \<and>
   \<not> isl (issue example_sends (projr tagged)) \<and>
   \<not> isl (Sync (projr (issue example_sends (projr tagged)))) \<and>
   delivered 1 (projr (Sync (projr (issue example_sends (projr tagged))))) =
     [([10, 11, 12], [50, 51, 52, 53, 54, 55, 56, 57]),
      ([30], [70, 71, 72, 73, 74, 75, 76, 77]),
      ([20, 21], [60, 61, 62, 63, 64, 65, 66, 67])]"
proof -
  let ?s = "projr tagged"
  let ?s1 = "projr (issue example_sends ?s)"
  have f: "sized ?s" "\<not> mAbort ?s" "mProcCount ?s = 2"
    "list_all (\<lambda>row. list_all (\<lambda>q. q = []) row) (mTmpSendRequests ?s)"
    "length (mTmpSendRequests ?s) = 2" "list_all (\<lambda>row. length row = 2) (mTmpSendRequests ?s)"
    "\<not> isl (issue example_sends ?s)"
    by code_simp+
  have ok: "staging_ok ?s"
    unfolding staging_ok_def f(3) GetQueueFromMe_def
    using f(4,5,6) by (auto simp: list_all_length)
  have i: "issue example_sends ?s = Inr ?s1" using f(7) by simp
  have d: "(1::nat) < mProcCount ?s" using f(3) by simp
  have rhs: "concat (map (\<lambda>src. staged src 1 ?s @
                      map (sent_message ?s) (filter (\<lambda>c. caller c = src \<and> target c = 1) example_sends))
                 [0..<mProcCount ?s]) =
     [([10, 11, 12], [50, 51, 52, 53, 54, 55, 56, 57]),
      ([30], [70, 71, 72, 73, 74, 75, 76, 77]),
      ([20, 21], [60, 61, 62, 63, 64, 65, 66, 67])]"
    by code_simp
  from Sends_delivered_in_order[OF f(1) ok i f(2) d] obtain s2 where
    "Sync ?s1 = Inr s2" "delivered 1 s2 =
       concat (map (\<lambda>src. staged src 1 ?s @
                      map (sent_message ?s) (filter (\<lambda>c. caller c = src \<and> target c = 1) example_sends))
                 [0..<mProcCount ?s])"
    by blast
  with rhs f(1,2,7) ok show ?thesis by simp
qed

section \<open>Put and its application at Sync\<close>

lemma Extract_outside:
  "\<not> (dst \<le> a \<and> a < dst + n) \<Longrightarrow> Extract loc n dst arena m a = m a"
  by (auto simp: Extract_def write_bytes_def stack_bytes_def)

lemma Extract_inside:
  "dst \<le> a \<Longrightarrow> a < dst + n \<Longrightarrow> loc + n \<le> length arena \<Longrightarrow>
   Extract loc n dst arena m a = arena ! (loc + (a - dst))"
  by (auto simp: Extract_def write_bytes_def stack_bytes_def)

lemma apply_puts_memory:
  "memory (fold (\<lambda>putRequest s.
       s\<lparr>memory := Extract (put_bufferLocation putRequest) (put_size putRequest)
                     (put_destination putRequest) (mPutBufferStacks s ! owner) (memory s)\<rparr>) rs s)
   = fold (\<lambda>r m. Extract (put_bufferLocation r) (put_size r) (put_destination r)
                    (mPutBufferStacks s ! owner) m) rs (memory s)"
proof (induction rs arbitrary: s)
  case Nil
  show ?case by simp
next
  case (Cons r rs)
  show ?case unfolding fold_simps Cons.IH by simp
qed

lemma apply_puts_none:
  "\<not> list_ex (\<lambda>r. covers r a) q \<Longrightarrow>
   fold (\<lambda>r m. Extract (put_bufferLocation r) (put_size r) (put_destination r) arena m) (rev q) m a = m a"
proof (induction q)
  case Nil
  show ?case by simp
next
  case (Cons r q)
  then have "\<not> covers r a" and rest: "\<not> list_ex (\<lambda>r. covers r a) q" by simp_all
  then have "Extract (put_bufferLocation r) (put_size r) (put_destination r) arena m' a = m' a" for m'
    by (intro Extract_outside) (simp add: covers_def)
  with Cons.IH[OF rest] show ?case by simp
qed

lemma apply_puts_first:
  "find (\<lambda>r. covers r a) q = Some r \<Longrightarrow> put_in_arena arena r \<Longrightarrow>
   fold (\<lambda>r m. Extract (put_bufferLocation r) (put_size r) (put_destination r) arena m) (rev q) m a
     = put_value arena r a"
proof (induction q)
  case Nil
  then show ?case by simp
next
  case (Cons r' q)
  show ?case
  proof (cases "covers r' a")
    case True
    with Cons.prems have "r' = r" by simp
    with True Cons.prems(2) show ?thesis
      by (simp add: covers_def put_in_arena_def put_value_def Extract_inside)
  next
    case False
    then have "Extract (put_bufferLocation r') (put_size r') (put_destination r') arena m' a = m' a" for m'
      by (intro Extract_outside) (simp add: covers_def)
    with False Cons show ?thesis by simp
  qed
qed

lemma SetQueueToMe_same: "SetQueueToMe a b (q ! a ! b) q = q"
  by (simp add: SetQueueToMe_def)

lemma ProcessPutRequests_owner_eq:
  "ProcessPutRequests_owner pid owner t =
     t\<lparr>memory := fold (\<lambda>r m. Extract (put_bufferLocation r) (put_size r) (put_destination r)
                            (mPutBufferStacks t ! owner) m)
                     (rev (mPutRequests t ! owner ! pid)) (memory t),
       mPutRequests := SetQueueToMe owner pid [] (mPutRequests t)\<rparr>"
proof (cases "mPutRequests t ! owner ! pid = []")
  case True
  have "SetQueueToMe owner pid [] (mPutRequests t) = mPutRequests t"
    using SetQueueToMe_same[of owner pid "mPutRequests t"] unfolding True .
  then show ?thesis
    using True by (simp add: ProcessPutRequests_owner_def GetQueueToMe_def)
next
  case False
  then show ?thesis
    by (simp add: ProcessPutRequests_owner_def GetQueueToMe_def Let_def apply_puts_memory fold_keeps)
qed

lemma find_None_list_ex: "find P xs = None \<longleftrightarrow> \<not> list_ex P xs"
  by (auto simp: find_None_iff list_ex_iff)

lemma put_loop:
  assumes sq: "square P (mPutRequests t)" and p: "p < P" and owner: "owner < P"
    and others: "\<And>ow. ow < P \<Longrightarrow> ow \<noteq> owner \<Longrightarrow> \<not> list_ex (\<lambda>r. covers r a) (mPutRequests t ! ow ! p)"
    and own: "\<And>r. find (\<lambda>r. covers r a) (mPutRequests t ! owner ! p) = Some r \<Longrightarrow>
                put_in_arena (mPutBufferStacks t ! owner) r"
    and k: "k \<le> P"
  shows "mProcCount (fold (ProcessPutRequests_owner p) [0..<k] t) = mProcCount t \<and>
     square P (mPutRequests (fold (ProcessPutRequests_owner p) [0..<k] t)) \<and>
     mPutBufferStacks (fold (ProcessPutRequests_owner p) [0..<k] t) = mPutBufferStacks t \<and>
     (\<forall>ow<P. \<forall>p'<P. p' \<noteq> p \<or> k \<le> ow \<longrightarrow>
        mPutRequests (fold (ProcessPutRequests_owner p) [0..<k] t) ! ow ! p' = mPutRequests t ! ow ! p') \<and>
     memory (fold (ProcessPutRequests_owner p) [0..<k] t) a =
       (if owner < k
        then (case find (\<lambda>r. covers r a) (mPutRequests t ! owner ! p) of
                None \<Rightarrow> memory t a
              | Some r \<Rightarrow> put_value (mPutBufferStacks t ! owner) r a)
        else memory t a)"
  using k
proof (induction k)
  case 0
  show ?case using sq by simp
next
  case (Suc k)
  let ?u = "fold (ProcessPutRequests_owner p) [0..<k] t"
  let ?w = "case find (\<lambda>r. covers r a) (mPutRequests t ! owner ! p) of
                None \<Rightarrow> memory t a
              | Some r \<Rightarrow> put_value (mPutBufferStacks t ! owner) r a"
  from Suc have k: "k < P" and
    IH: "mProcCount ?u = mProcCount t" "square P (mPutRequests ?u)"
      "mPutBufferStacks ?u = mPutBufferStacks t"
      "\<And>ow p'. ow < P \<Longrightarrow> p' < P \<Longrightarrow> p' \<noteq> p \<or> k \<le> ow \<Longrightarrow>
         mPutRequests ?u ! ow ! p' = mPutRequests t ! ow ! p'"
      "memory ?u a = (if owner < k then ?w else memory t a)"
    by simp_all
  have q: "mPutRequests ?u ! k ! p = mPutRequests t ! k ! p" using IH(4)[OF k p] by simp
  let ?u' = "ProcessPutRequests_owner p k ?u"
  have f: "fold (ProcessPutRequests_owner p) [0..<Suc k] t = ?u'" by simp
  have 1: "mProcCount ?u' = mProcCount t" using IH(1) by simp
  have 2: "square P (mPutRequests ?u')" using IH(2) by (simp add: ProcessPutRequests_owner_eq)
  have 3: "mPutBufferStacks ?u' = mPutBufferStacks t" using IH(3) by simp
  have 4: "mPutRequests ?u' ! ow ! p' = mPutRequests t ! ow ! p'"
    if "ow < P" "p' < P" "p' \<noteq> p \<or> Suc k \<le> ow" for ow p'
  proof -
    from that(3) have ne: "\<not> (ow = k \<and> p' = p)" and w: "p' \<noteq> p \<or> k \<le> ow" by auto
    from nth_SetQueueToMe[OF IH(2) k p that(1,2)] ne IH(4)[OF that(1,2) w]
    show ?thesis by (auto simp: ProcessPutRequests_owner_eq)
  qed
  have m: "memory ?u' a =
      fold (\<lambda>r m. Extract (put_bufferLocation r) (put_size r) (put_destination r)
                      (mPutBufferStacks t ! k) m)
           (rev (mPutRequests t ! k ! p)) (memory ?u) a"
    by (simp add: ProcessPutRequests_owner_eq q IH(3))
  have 5: "memory ?u' a = (if owner < Suc k then ?w else memory t a)"
  proof (cases "k = owner")
    case True
    show ?thesis
    proof (cases "find (\<lambda>r. covers r a) (mPutRequests t ! owner ! p)")
      case None
      then have "\<not> list_ex (\<lambda>r. covers r a) (mPutRequests t ! owner ! p)"
        by (simp add: find_None_list_ex)
      from apply_puts_none[OF this] m True None IH(5) show ?thesis by simp
    next
      case (Some r)
      from apply_puts_first[OF Some own[OF Some]] m True Some show ?thesis by simp
    qed
  next
    case False
    from apply_puts_none[OF others[OF k False]] m have "memory ?u' a = memory ?u a" by simp
    with IH(5) False show ?thesis by (auto simp: less_Suc_eq)
  qed
  show ?case unfolding f using 1 2 3 4 5 by blast
qed

lemma ProcessPutRequests_at:
  assumes sq: "square (mProcCount t) (mPutRequests t)" and p: "p < mProcCount t"
    and owner: "owner < mProcCount t"
    and others: "\<forall>ow<mProcCount t. ow \<noteq> owner \<longrightarrow>
                   \<not> list_ex (\<lambda>r. covers r a) (mPutRequests t ! ow ! p)"
    and own: "\<forall>r. find (\<lambda>r. covers r a) (mPutRequests t ! owner ! p) = Some r \<longrightarrow>
                put_in_arena (mPutBufferStacks t ! owner) r"
  shows "square (mProcCount t) (mPutRequests (ProcessPutRequests p t)) \<and>
    (\<forall>ow<mProcCount t. \<forall>p'<mProcCount t. p' \<noteq> p \<longrightarrow>
        mPutRequests (ProcessPutRequests p t) ! ow ! p' = mPutRequests t ! ow ! p') \<and>
    memory (ProcessPutRequests p t) a =
       (case find (\<lambda>r. covers r a) (mPutRequests t ! owner ! p) of
          None \<Rightarrow> memory t a
        | Some r \<Rightarrow> put_value (mPutBufferStacks t ! owner) r a)"
proof -
  have o': "\<not> list_ex (\<lambda>r. covers r a) (mPutRequests t ! ow ! p)"
    if "ow < mProcCount t" "ow \<noteq> owner" for ow using others that by blast
  have w': "put_in_arena (mPutBufferStacks t ! owner) r"
    if "find (\<lambda>r. covers r a) (mPutRequests t ! owner ! p) = Some r" for r using own that by blast
  from put_loop[OF sq p owner o' w', of "mProcCount t"] owner
  show ?thesis unfolding ProcessPutRequests_def by simp
qed

lemma puts_applied_upto:
  assumes sq: "square (mProcCount s) (mPutRequests s)"
    and pid: "pid < mProcCount s" and owner: "owner < mProcCount s"
    and others: "\<And>ow p'. ow < mProcCount s \<Longrightarrow> p' < mProcCount s \<Longrightarrow> \<not> (ow = owner \<and> p' = pid) \<Longrightarrow>
                   \<not> list_ex (\<lambda>r. covers r a) (mPutRequests s ! ow ! p')"
    and own: "find (\<lambda>r. covers r a) (mPutRequests s ! owner ! pid) = Some r"
      "put_in_arena (mPutBufferStacks s ! owner) r"
    and m: "m \<le> mProcCount s"
  shows "mProcCount (fold (\<lambda>pid s. ProcessPutRequests pid (ProcessSendRequests pid (ProcessPopRequests pid s))) [0..<m] s)
       = mProcCount s \<and>
     square (mProcCount s) (mPutRequests (fold (\<lambda>pid s. ProcessPutRequests pid (ProcessSendRequests pid (ProcessPopRequests pid s))) [0..<m] s)) \<and>
     mPutBufferStacks (fold (\<lambda>pid s. ProcessPutRequests pid (ProcessSendRequests pid (ProcessPopRequests pid s))) [0..<m] s)
       = mPutBufferStacks s \<and>
     (\<forall>ow<mProcCount s. \<forall>p'<mProcCount s. m \<le> p' \<longrightarrow>
        mPutRequests (fold (\<lambda>pid s. ProcessPutRequests pid (ProcessSendRequests pid (ProcessPopRequests pid s))) [0..<m] s) ! ow ! p'
          = mPutRequests s ! ow ! p') \<and>
     memory (fold (\<lambda>pid s. ProcessPutRequests pid (ProcessSendRequests pid (ProcessPopRequests pid s))) [0..<m] s) a
       = (if pid < m then put_value (mPutBufferStacks s ! owner) r a else memory s a)"
  using m
proof (induction m)
  case 0
  show ?case using sq by simp
next
  case (Suc m)
  let ?P = "mProcCount s"
  let ?t = "fold (\<lambda>pid s. ProcessPutRequests pid (ProcessSendRequests pid (ProcessPopRequests pid s))) [0..<m] s"
  let ?t1 = "ProcessSendRequests m (ProcessPopRequests m ?t)"
  let ?t2 = "ProcessPutRequests m ?t1"
  from Suc have m: "m < ?P" and
    IH: "mProcCount ?t = ?P" "square ?P (mPutRequests ?t)" "mPutBufferStacks ?t = mPutBufferStacks s"
      "\<And>ow p'. ow < ?P \<Longrightarrow> p' < ?P \<Longrightarrow> m \<le> p' \<Longrightarrow> mPutRequests ?t ! ow ! p' = mPutRequests s ! ow ! p'"
      "memory ?t a = (if pid < m then put_value (mPutBufferStacks s ! owner) r a else memory s a)"
    by simp_all
  have f: "fold (\<lambda>pid s. ProcessPutRequests pid (ProcessSendRequests pid (ProcessPopRequests pid s))) [0..<Suc m] s = ?t2"
    by simp
  have t1: "mProcCount ?t1 = ?P" "mPutRequests ?t1 = mPutRequests ?t"
    "mPutBufferStacks ?t1 = mPutBufferStacks s" "memory ?t1 = memory ?t"
    using IH(1,3) by simp_all
  have col: "mPutRequests ?t1 ! ow ! m = mPutRequests s ! ow ! m" if "ow < ?P" for ow
    using IH(4)[OF that m] t1(2) by simp
  have sq1: "square (mProcCount ?t1) (mPutRequests ?t1)" using IH(2) t1 by simp
  have m1: "m < mProcCount ?t1" and o1: "owner < mProcCount ?t1" using m owner t1(1) by simp_all
  have oth1: "\<forall>ow<mProcCount ?t1. ow \<noteq> owner \<longrightarrow>
       \<not> list_ex (\<lambda>r. covers r a) (mPutRequests ?t1 ! ow ! m)"
  proof (intro allI impI)
    fix ow assume "ow < mProcCount ?t1" and ne: "ow \<noteq> owner"
    with t1(1) have ow: "ow < ?P" by simp
    from others[OF ow m] ne col[OF ow]
    show "\<not> list_ex (\<lambda>r. covers r a) (mPutRequests ?t1 ! ow ! m)" by simp
  qed
  have own1: "\<forall>r'. find (\<lambda>r. covers r a) (mPutRequests ?t1 ! owner ! m) = Some r' \<longrightarrow>
       put_in_arena (mPutBufferStacks ?t1 ! owner) r'"
  proof (intro allI impI)
    fix r' assume that: "find (\<lambda>r. covers r a) (mPutRequests ?t1 ! owner ! m) = Some r'"
    show "put_in_arena (mPutBufferStacks ?t1 ! owner) r'"
    proof (cases "m = pid")
      case True
      with that col[OF owner] own(1) have "r' = r" by simp
      with own(2) t1(3) show ?thesis by simp
    next
      case False
      with others[OF owner m] col[OF owner]
      have "find (\<lambda>r. covers r a) (mPutRequests ?t1 ! owner ! m) = None"
        by (simp add: find_None_list_ex)
      with that show ?thesis by simp
    qed
  qed
  from ProcessPutRequests_at[OF sq1 m1 o1 oth1 own1]
  have R: "square (mProcCount ?t1) (mPutRequests ?t2)"
    "\<And>ow p'. ow < ?P \<Longrightarrow> p' < ?P \<Longrightarrow> p' \<noteq> m \<Longrightarrow>
        mPutRequests ?t2 ! ow ! p' = mPutRequests ?t1 ! ow ! p'"
    "memory ?t2 a =
       (case find (\<lambda>r. covers r a) (mPutRequests ?t1 ! owner ! m) of
          None \<Rightarrow> memory ?t1 a
        | Some r \<Rightarrow> put_value (mPutBufferStacks ?t1 ! owner) r a)"
    unfolding t1(1) by blast+
  have 1: "mProcCount ?t2 = ?P" using t1(1) by simp
  have 2: "square ?P (mPutRequests ?t2)" using R(1) t1(1) by simp
  have 3: "mPutBufferStacks ?t2 = mPutBufferStacks s" using t1(3) by simp
  have 4: "mPutRequests ?t2 ! ow ! p' = mPutRequests s ! ow ! p'"
    if "ow < ?P" "p' < ?P" "Suc m \<le> p'" for ow p'
  proof -
    from that(3) have ne: "p' \<noteq> m" and le: "m \<le> p'" by simp_all
    from R(2)[OF that(1,2) ne] IH(4)[OF that(1,2) le] t1(2) show ?thesis by simp
  qed
  have 5: "memory ?t2 a = (if pid < Suc m then put_value (mPutBufferStacks s ! owner) r a else memory s a)"
  proof (cases "m = pid")
    case True
    with R(3) col[OF owner] own(1) t1(3) show ?thesis by simp
  next
    case False
    with others[OF owner m] col[OF owner]
    have "find (\<lambda>r. covers r a) (mPutRequests ?t1 ! owner ! m) = None"
      by (simp add: find_None_list_ex)
    with R(3) t1(4) IH(5) False show ?thesis by (auto simp: less_Suc_eq)
  qed
  show ?case unfolding f using 1 2 3 4 5 by blast
qed

lemma gets_convertedI:
  assumes "put_wf s" "put_wf t" "mProcCount t = mProcCount s" "memory t = memory s"
    "\<And>ow. ow < mProcCount s \<Longrightarrow> \<exists>ext. mPutBufferStacks t ! ow = mPutBufferStacks s ! ow @ ext"
    "\<And>ow p. ow < mProcCount s \<Longrightarrow> p < mProcCount s \<Longrightarrow>
       \<exists>xs. mPutRequests t ! ow ! p = mPutRequests s ! ow ! p @ xs"
    "\<And>ow p a. ow < mProcCount s \<Longrightarrow> p < mProcCount s \<Longrightarrow> may_write t ow p a \<Longrightarrow> may_write s ow p a"
  shows "gets_converted s t"
  unfolding gets_converted_def using assms by blast

lemma gets_convertedD:
  assumes "gets_converted s t"
  shows "put_wf s" "put_wf t" "mProcCount t = mProcCount s" "memory t = memory s"
    "\<And>ow. ow < mProcCount s \<Longrightarrow> \<exists>ext. mPutBufferStacks t ! ow = mPutBufferStacks s ! ow @ ext"
    "\<And>ow p. ow < mProcCount s \<Longrightarrow> p < mProcCount s \<Longrightarrow>
       \<exists>xs. mPutRequests t ! ow ! p = mPutRequests s ! ow ! p @ xs"
    "\<And>ow p a. ow < mProcCount s \<Longrightarrow> p < mProcCount s \<Longrightarrow> may_write t ow p a \<Longrightarrow> may_write s ow p a"
  using assms unfolding gets_converted_def by blast+

lemma gets_converted_same:
  assumes "put_wf s" "mProcCount t = mProcCount s" "memory t = memory s"
    "mPutBufferStacks t = mPutBufferStacks s" "mPutRequests t = mPutRequests s"
    "mGetRequests t = mGetRequests s"
  shows "gets_converted s t"
proof (rule gets_convertedI)
  show "put_wf t" using assms by (simp add: put_wf_def)
  show "may_write s ow p a" if "may_write t ow p a" for ow p a
    using that assms by (simp add: may_write_def)
qed (use assms in simp_all)

lemma gets_converted_trans:
  assumes "gets_converted s t" "gets_converted t u"
  shows "gets_converted s u"
proof -
  note A = gets_convertedD[OF assms(1)] and B = gets_convertedD[OF assms(2)]
  show ?thesis
  proof (rule gets_convertedI)
    show "put_wf s" by (rule A(1))
    show "put_wf u" by (rule B(2))
    show "mProcCount u = mProcCount s" using A(3) B(3) by simp
    show "memory u = memory s" using A(4) B(4) by simp
    show "\<exists>ext. mPutBufferStacks u ! ow = mPutBufferStacks s ! ow @ ext" if "ow < mProcCount s" for ow
    proof -
      from A(5)[OF that] obtain e1 where 1: "mPutBufferStacks t ! ow = mPutBufferStacks s ! ow @ e1" by blast
      from B(5)[of ow] that A(3) obtain e2 where 2: "mPutBufferStacks u ! ow = mPutBufferStacks t ! ow @ e2"
        by auto
      from 1 2 have "mPutBufferStacks u ! ow = mPutBufferStacks s ! ow @ (e1 @ e2)" by simp
      then show ?thesis by blast
    qed
    show "\<exists>xs. mPutRequests u ! ow ! p = mPutRequests s ! ow ! p @ xs"
      if "ow < mProcCount s" "p < mProcCount s" for ow p
    proof -
      from A(6)[OF that] obtain x1 where 1: "mPutRequests t ! ow ! p = mPutRequests s ! ow ! p @ x1" by blast
      from B(6)[of ow p] that A(3) obtain x2 where 2: "mPutRequests u ! ow ! p = mPutRequests t ! ow ! p @ x2"
        by auto
      from 1 2 have "mPutRequests u ! ow ! p = mPutRequests s ! ow ! p @ (x1 @ x2)" by simp
      then show ?thesis by blast
    qed
    show "may_write s ow p a" if "ow < mProcCount s" "p < mProcCount s" "may_write u ow p a" for ow p a
    proof -
      from B(7)[of ow p a] that A(3) have "may_write t ow p a" by simp
      with A(7)[OF that(1,2)] show ?thesis by simp
    qed
  qed
qed

lemma fold_gets_converted:
  assumes "gets_converted s0 s"
    and "\<And>x t. x \<in> set xs \<Longrightarrow> put_wf t \<Longrightarrow> mProcCount t = mProcCount s0 \<Longrightarrow> gets_converted t (f x t)"
  shows "gets_converted s0 (fold f xs s)"
  using assms
proof (induction xs arbitrary: s)
  case Nil
  then show ?case by simp
next
  case (Cons x xs)
  note D = gets_convertedD[OF Cons.prems(1)]
  have "gets_converted s (f x s)" using Cons.prems(2)[of x s] D(2,3) by simp
  with Cons.prems(1) have 1: "gets_converted s0 (f x s)" by (rule gets_converted_trans)
  show ?case unfolding fold_simps
  proof (rule Cons.IH[OF 1])
    fix y t assume "y \<in> set xs" "put_wf t" "mProcCount t = mProcCount s0"
    then show "gets_converted t (f y t)" using Cons.prems(2)[of y t] by simp
  qed
qed

lemma SetQueueFromMe_twice:
  "b < length q \<Longrightarrow> SetQueueFromMe a b v (SetQueueFromMe a b w q) = SetQueueFromMe a b v q"
  by (simp add: SetQueueFromMe_def)

lemma SetQueueFromMe_same: "SetQueueFromMe a b (q ! b ! a) q = q"
  by (simp add: SetQueueFromMe_def)

lemma covers_by_extent:
  assumes "map (\<lambda>x. (put_destination x, put_size x)) xs = map (\<lambda>g. (get_destination g, get_size g)) gs"
  shows "list_ex (\<lambda>x. covers x a) xs = list_ex (\<lambda>g. get_covers g a) gs"
proof -
  have "list_ex (\<lambda>x. covers x a) xs =
        list_ex (\<lambda>e. fst e \<le> a \<and> a < fst e + snd e) (map (\<lambda>x. (put_destination x, put_size x)) xs)"
    by (simp add: list_ex_iff covers_def)
  also have "\<dots> = list_ex (\<lambda>e. fst e \<le> a \<and> a < fst e + snd e) (map (\<lambda>g. (get_destination g, get_size g)) gs)"
    by (simp only: assms)
  also have "\<dots> = list_ex (\<lambda>g. get_covers g a) gs"
    by (simp add: list_ex_iff get_covers_def)
  finally show ?thesis .
qed

lemma convert_gets:
  assumes "square P (mPutRequests t)" "length (mPutBufferStacks t) = P" "holder < P" "issuer < P"
  shows "\<exists>ext xs.
     fold (\<lambda>request s.
             let (stack, bufferLocation) =
                   Alloc (get_size request) (get_source request) (memory s) (mPutBufferStacks s ! holder);
                 s' = s\<lparr>mPutBufferStacks := (mPutBufferStacks s)[holder := stack]\<rparr>
             in s'\<lparr>mPutRequests := SetQueueFromMe issuer holder
                    (GetQueueFromMe issuer holder (mPutRequests s') @
                       [\<lparr>put_bufferLocation = bufferLocation,
                         put_destination = get_destination request,
                         put_size = get_size request\<rparr>])
                    (mPutRequests s')\<rparr>) gs t =
       t\<lparr>mPutBufferStacks := (mPutBufferStacks t)[holder := mPutBufferStacks t ! holder @ ext],
         mPutRequests := SetQueueFromMe issuer holder (mPutRequests t ! holder ! issuer @ xs) (mPutRequests t)\<rparr> \<and>
     map (\<lambda>x. (put_destination x, put_size x)) xs = map (\<lambda>g. (get_destination g, get_size g)) gs"
  using assms
proof (induction gs arbitrary: t)
  case Nil
  have "t = t\<lparr>mPutBufferStacks := (mPutBufferStacks t)[holder := mPutBufferStacks t ! holder @ []],
         mPutRequests := SetQueueFromMe issuer holder (mPutRequests t ! holder ! issuer @ []) (mPutRequests t)\<rparr>"
    by (simp add: SetQueueFromMe_same)
  then show ?case by (intro exI[of _ "[]"]) simp
next
  case (Cons g gs)
  let ?f = "\<lambda>request s.
             let (stack, bufferLocation) =
                   Alloc (get_size request) (get_source request) (memory s) (mPutBufferStacks s ! holder);
                 s' = s\<lparr>mPutBufferStacks := (mPutBufferStacks s)[holder := stack]\<rparr>
             in s'\<lparr>mPutRequests := SetQueueFromMe issuer holder
                    (GetQueueFromMe issuer holder (mPutRequests s') @
                       [\<lparr>put_bufferLocation = bufferLocation,
                         put_destination = get_destination request,
                         put_size = get_size request\<rparr>])
                    (mPutRequests s')\<rparr>"
  let ?bytes = "read_bytes (memory t) (get_source g) (get_size g)"
  let ?x = "\<lparr>put_bufferLocation = length (mPutBufferStacks t ! holder),
             put_destination = get_destination g, put_size = get_size g\<rparr>"
  let ?t1 = "t\<lparr>mPutBufferStacks := (mPutBufferStacks t)[holder := mPutBufferStacks t ! holder @ ?bytes],
         mPutRequests := SetQueueFromMe issuer holder (mPutRequests t ! holder ! issuer @ [?x]) (mPutRequests t)\<rparr>"
  have t1: "?f g t = ?t1"
    by (simp add: Alloc_def GetQueueFromMe_def)
  have hl: "holder < length (mPutRequests t)" "issuer < length (mPutRequests t ! holder)"
    using Cons.prems by (simp_all add: square_length square_nth)
  have "\<exists>ext xs. fold ?f gs ?t1 =
       ?t1\<lparr>mPutBufferStacks := (mPutBufferStacks ?t1)[holder := mPutBufferStacks ?t1 ! holder @ ext],
         mPutRequests := SetQueueFromMe issuer holder (mPutRequests ?t1 ! holder ! issuer @ xs) (mPutRequests ?t1)\<rparr> \<and>
     map (\<lambda>x. (put_destination x, put_size x)) xs = map (\<lambda>g. (get_destination g, get_size g)) gs"
    using Cons.prems by (intro Cons.IH) simp_all
  then obtain ext xs where
    r: "fold ?f gs ?t1 =
       ?t1\<lparr>mPutBufferStacks := (mPutBufferStacks ?t1)[holder := mPutBufferStacks ?t1 ! holder @ ext],
         mPutRequests := SetQueueFromMe issuer holder (mPutRequests ?t1 ! holder ! issuer @ xs) (mPutRequests ?t1)\<rparr>"
    and e: "map (\<lambda>x. (put_destination x, put_size x)) xs = map (\<lambda>g. (get_destination g, get_size g)) gs"
    by blast
  have at: "mPutRequests ?t1 ! holder ! issuer = mPutRequests t ! holder ! issuer @ [?x]"
    using hl by (simp add: SetQueueFromMe_def)
  have "fold ?f (g # gs) t =
       t\<lparr>mPutBufferStacks := (mPutBufferStacks t)[holder := mPutBufferStacks t ! holder @ (?bytes @ ext)],
         mPutRequests := SetQueueFromMe issuer holder (mPutRequests t ! holder ! issuer @ (?x # xs)) (mPutRequests t)\<rparr>"
    unfolding fold_simps t1 r at
    using Cons.prems(2,3) hl by (simp add: SetQueueFromMe_twice)
  moreover have "map (\<lambda>x. (put_destination x, put_size x)) (?x # xs) =
      map (\<lambda>g. (get_destination g, get_size g)) (g # gs)"
    using e by simp
  ultimately show ?case by blast
qed

lemma ProcessGetRequests_owner_converts:
  assumes wf: "put_wf t" and holder: "holder < mProcCount t" and issuer: "issuer < mProcCount t"
  shows "gets_converted t (ProcessGetRequests_owner holder issuer t)"
proof -
  let ?P = "mProcCount t"
  let ?gq = "mGetRequests t ! issuer ! holder"
  from wf have sq: "square ?P (mPutRequests t)" and sg: "square ?P (mGetRequests t)"
    and la: "length (mPutBufferStacks t) = ?P"
    by (simp_all add: put_wf_def)
  from convert_gets[OF sq la holder issuer, of "rev ?gq"] obtain ext xs where
    r: "fold (\<lambda>request s.
             let (stack, bufferLocation) =
                   Alloc (get_size request) (get_source request) (memory s) (mPutBufferStacks s ! holder);
                 s' = s\<lparr>mPutBufferStacks := (mPutBufferStacks s)[holder := stack]\<rparr>
             in s'\<lparr>mPutRequests := SetQueueFromMe issuer holder
                    (GetQueueFromMe issuer holder (mPutRequests s') @
                       [\<lparr>put_bufferLocation = bufferLocation,
                         put_destination = get_destination request,
                         put_size = get_size request\<rparr>])
                    (mPutRequests s')\<rparr>) (rev ?gq) t =
       t\<lparr>mPutBufferStacks := (mPutBufferStacks t)[holder := mPutBufferStacks t ! holder @ ext],
         mPutRequests := SetQueueFromMe issuer holder (mPutRequests t ! holder ! issuer @ xs) (mPutRequests t)\<rparr>"
    and e: "map (\<lambda>x. (put_destination x, put_size x)) xs = map (\<lambda>g. (get_destination g, get_size g)) (rev ?gq)"
    by blast
  let ?t' = "t\<lparr>mPutBufferStacks := (mPutBufferStacks t)[holder := mPutBufferStacks t ! holder @ ext],
         mPutRequests := SetQueueFromMe issuer holder (mPutRequests t ! holder ! issuer @ xs) (mPutRequests t),
         mGetRequests := SetQueueToMe issuer holder [] (mGetRequests t)\<rparr>"
  have res: "ProcessGetRequests_owner holder issuer t = ?t'"
    apply (simp only: ProcessGetRequests_owner_def GetQueueToMe_def Let_def[of "mGetRequests t ! issuer ! holder"])
    apply (simp only: Let_def[of "fold f gs t" for f :: "GetRequest \<Rightarrow> bsp \<Rightarrow> bsp" and gs])
    apply (simp only: r)
    apply simp
    done
  have ex: "list_ex (\<lambda>x. covers x a) xs = list_ex (\<lambda>g. get_covers g a) ?gq" for a
    unfolding covers_by_extent[OF e] by (simp add: list_ex_iff)
  show ?thesis
    unfolding res
  proof (rule gets_convertedI)
    show "put_wf t" by (rule wf)
    show "put_wf ?t'" using sq sg la by (simp add: put_wf_def)
    show "mProcCount ?t' = mProcCount t" by simp
    show "memory ?t' = memory t" by simp
    show "\<exists>ext. mPutBufferStacks ?t' ! ow = mPutBufferStacks t ! ow @ ext" if "ow < ?P" for ow
    proof (cases "ow = holder")
      case True
      with la holder show ?thesis by simp
    next
      case False
      then show ?thesis by simp
    qed
    show "\<exists>xs. mPutRequests ?t' ! ow ! p = mPutRequests t ! ow ! p @ xs" if "ow < ?P" "p < ?P" for ow p
      using nth_SetQueueFromMe[OF sq issuer holder that] by simp
    show "may_write t ow p a" if "ow < ?P" "p < ?P" "may_write ?t' ow p a" for ow p a
    proof (cases "ow = holder \<and> p = issuer")
      case True
      with that(3) nth_SetQueueFromMe[OF sq issuer holder that(1,2)]
        nth_SetQueueToMe[OF sg issuer holder that(2,1)]
      have "list_ex (\<lambda>r. covers r a) (mPutRequests t ! holder ! issuer) \<or> list_ex (\<lambda>x. covers x a) xs"
        by (simp add: may_write_def)
      with True show ?thesis by (auto simp: may_write_def ex)
    next
      case False
      with that(3) nth_SetQueueFromMe[OF sq issuer holder that(1,2)]
        nth_SetQueueToMe[OF sg issuer holder that(2,1)]
      show ?thesis by (auto simp: may_write_def)
    qed
  qed
qed

lemma put_wf_refl: "put_wf s \<Longrightarrow> gets_converted s s"
  by (rule gets_converted_same) simp_all

lemma ProcessGetRequests_converts:
  assumes "put_wf t" "holder < mProcCount t"
  shows "gets_converted t (ProcessGetRequests holder t)"
  unfolding ProcessGetRequests_def
proof (rule fold_gets_converted)
  show "gets_converted t t" using assms(1) by (rule put_wf_refl)
  fix x u assume "x \<in> set [0..<mProcCount t]" "put_wf u" "mProcCount u = mProcCount t"
  then show "gets_converted u (ProcessGetRequests_owner holder x u)"
    using assms(2) by (intro ProcessGetRequests_owner_converts) simp_all
qed

lemma phaseA_converts:
  assumes "put_wf s"
  shows "gets_converted s (all_procs [DoTagSizeUpdate, DoProcessGetRequests] s)"
  unfolding all_procs_def
proof (rule fold_gets_converted)
  show "gets_converted s s" using assms by (rule put_wf_refl)
  fix x u assume x: "x \<in> set [0..<mProcCount s]" and u: "put_wf u" "mProcCount u = mProcCount s"
  let ?u1 = "TagSizeUpdate x u"
  have 1: "gets_converted u ?u1" using u(1) by (intro gets_converted_same) simp_all
  have "put_wf ?u1" using gets_convertedD(2)[OF 1] .
  moreover have "x < mProcCount ?u1" using x u(2) by simp
  ultimately have 2: "gets_converted ?u1 (ProcessGetRequests x ?u1)"
    by (rule ProcessGetRequests_converts)
  from gets_converted_trans[OF 1 2]
  show "gets_converted u (fold (\<lambda>i. exec_instr i x) [DoTagSizeUpdate, DoProcessGetRequests] u)"
    by simp
qed

lemma exec_instr_memory:
  "i \<noteq> DoProcessPutRequests \<Longrightarrow> memory (exec_instr i pid s) = memory s"
  by (cases i) simp_all

lemma all_procs_memory:
  assumes "DoProcessPutRequests \<notin> set seg"
  shows "memory (all_procs seg s) = memory s"
  unfolding all_procs_def
proof (rule fold_preserves)
  fix pid t
  show "memory (fold (\<lambda>i. exec_instr i pid) seg t) = memory t"
  proof (rule fold_preserves_on)
    fix i u assume "i \<in> set seg"
    with assms have "i \<noteq> DoProcessPutRequests" by auto
    then show "memory (exec_instr i pid u) = memory u" by (rule exec_instr_memory)
  qed
qed

lemma sized_put_wf: "sized s \<Longrightarrow> put_wf s"
  by (simp add: sized_def put_wf_def Let_def)

lemma find_covers_append:
  "find P q = Some r \<Longrightarrow> find P (q @ xs) = Some r"
  by (induction q) auto

lemma find_covers_in:
  "find (\<lambda>r. covers r a) q = Some r \<Longrightarrow> covers r a"
  by (induction q) (auto split: if_splits)

lemma put_value_append:
  "covers r a \<Longrightarrow> put_in_arena arena r \<Longrightarrow> put_value (arena @ ext) r a = put_value arena r a"
proof -
  assume "covers r a" "put_in_arena arena r"
  then have "put_bufferLocation r + (a - put_destination r) < length arena"
    unfolding covers_def put_in_arena_def by linarith
  then show ?thesis by (simp only: put_value_def nth_append if_True)
qed

lemma Put_Inr:
  assumes "Put tpid pid src dst off n s = Inr s'"
  shows "tpid < mProcCount s" "pid < mProcCount s" "sized s"
    "memory s' = memory s" "mProcCount s' = mProcCount s"
    "mPutBufferStacks s' =
       (mPutBufferStacks s)[tpid := mPutBufferStacks s ! tpid @ read_bytes (memory s) src n]"
    "\<exists>d. mPutRequests s' = SetQueueFromMe pid tpid
       (mPutRequests s ! tpid ! pid @
          [\<lparr>put_bufferLocation = length (mPutBufferStacks s ! tpid), put_destination = d,
            put_size = n\<rparr>]) (mPutRequests s)"
  using assms
  by (auto simp: Put_def Let_def Alloc_def GetQueueFromMe_def split: if_splits prod.splits)

text \<open>
  \<open>Put\<close> appends its request to the queue from the issuer to the target, so the order of
  the queue is the order of issue; the request holds the bytes read from the source at
  the time of the call.
\<close>

lemma Put_appends:
  assumes "Put tpid pid src dst off n s = Inr s'"
  shows "\<exists>r. mPutRequests s' ! tpid ! pid = mPutRequests s ! tpid ! pid @ [r] \<and>
             put_size r = n \<and> put_in_arena (mPutBufferStacks s' ! tpid) r \<and>
             (\<forall>i<n. put_value (mPutBufferStacks s' ! tpid) r (put_destination r + i)
                      = memory s (src + i))"
proof -
  note I = Put_Inr[OF assms]
  note sq = sizedD(6)[OF I(3)]
  have len: "length (mPutBufferStacks s) = mProcCount s" by (rule sizedD(8)[OF I(3)])
  from I(7) obtain d where
    q: "mPutRequests s' = SetQueueFromMe pid tpid
       (mPutRequests s ! tpid ! pid @
          [\<lparr>put_bufferLocation = length (mPutBufferStacks s ! tpid), put_destination = d,
            put_size = n\<rparr>]) (mPutRequests s)" by blast
  let ?r = "\<lparr>put_bufferLocation = length (mPutBufferStacks s ! tpid), put_destination = d,
            put_size = n\<rparr>"
  have "mPutRequests s' ! tpid ! pid = mPutRequests s ! tpid ! pid @ [?r]"
    unfolding q using sq I(1,2) by (simp add: nth_SetQueueFromMe)
  moreover have ar: "mPutBufferStacks s' ! tpid = mPutBufferStacks s ! tpid @ read_bytes (memory s) src n"
    unfolding I(6) using len I(1) by simp
  then have "put_in_arena (mPutBufferStacks s' ! tpid) ?r"
    by (simp add: put_in_arena_def read_bytes_def)
  moreover have "put_value (mPutBufferStacks s' ! tpid) ?r (put_destination ?r + i) = memory s (src + i)"
    if "i < n" for i
    unfolding ar using that by (simp add: put_value_def read_bytes_def nth_append)
  ultimately show ?thesis by (intro exI[of _ ?r]) simp
qed

text \<open>
  Claim C1.  \<open>ProcessPutRequests\<close> applies the queue of Puts from \<open>owner\<close> to \<open>pid\<close> from its
  last entry to its first (\<open>Put\<close> appends to the queue, so the first entry is the Put
  issued first): the memory afterwards is that of applying the first entry last.
  Consequently, let \<open>r\<close> be the first Put in that queue that covers address \<open>a\<close>, with its
  bytes in the arena of \<open>owner\<close>, and let no request between any other pair of processes
  write to \<open>a\<close> in this superstep.  Then, unless the run is aborted, Sync completes and
  the byte at \<open>a\<close> afterwards is the byte of \<open>r\<close> for \<open>a\<close>, whatever later Puts of the same
  queue (and Gets of \<open>pid\<close> from \<open>owner\<close>) cover \<open>a\<close>.
\<close>

theorem earliest_Put_wins:
  assumes "sized s" "\<not> mAbort s" "owner < mProcCount s" "pid < mProcCount s"
    and "find (\<lambda>r. covers r a) (mPutRequests s ! owner ! pid) = Some r"
    and "put_in_arena (mPutBufferStacks s ! owner) r"
    and "\<forall>ow<mProcCount s. \<forall>p<mProcCount s. \<not> (ow = owner \<and> p = pid) \<longrightarrow> \<not> may_write s ow p a"
  shows "memory (ProcessPutRequests_owner pid owner s) =
       foldr (\<lambda>r m. Extract (put_bufferLocation r) (put_size r) (put_destination r)
                       (mPutBufferStacks s ! owner) m)
             (mPutRequests s ! owner ! pid) (memory s) \<and>
     (\<exists>s2. Sync s = Inr s2 \<and> memory s2 a = put_value (mPutBufferStacks s ! owner) r a)"
proof -
  let ?P = "mProcCount s"
  let ?A = "all_procs [DoTagSizeUpdate, DoProcessGetRequests] s"
  let ?B = "all_procs [DoProcessPopRequests, DoProcessSendRequests, DoProcessPutRequests] ?A"
  let ?C = "all_procs [DoClearPutBuffer, DoProcessPushRequests] ?B"
  have first: "memory (ProcessPutRequests_owner pid owner s) =
       foldr (\<lambda>r m. Extract (put_bufferLocation r) (put_size r) (put_destination r)
                       (mPutBufferStacks s ! owner) m)
             (mPutRequests s ! owner ! pid) (memory s)"
    by (simp add: ProcessPutRequests_owner_eq foldr_conv_fold)
  have sync: "Sync s = Inr ?C" using assms(2) by (simp add: Sync_unfold)
  note G = gets_convertedD[OF phaseA_converts[OF sized_put_wf[OF assms(1)]]]
  have PA: "mProcCount ?A = ?P" by simp
  have sqA: "square (mProcCount ?A) (mPutRequests ?A)" using G(2) by (simp add: put_wf_def)
  from G(5)[OF assms(3)] obtain ext where
    ar: "mPutBufferStacks ?A ! owner = mPutBufferStacks s ! owner @ ext" by blast
  from G(6)[OF assms(3,4)] obtain xs where
    qu: "mPutRequests ?A ! owner ! pid = mPutRequests s ! owner ! pid @ xs" by blast
  have cov: "covers r a" using assms(5) by (rule find_covers_in)
  have others: "\<not> list_ex (\<lambda>r. covers r a) (mPutRequests ?A ! ow ! p')"
    if "ow < mProcCount ?A" "p' < mProcCount ?A" "\<not> (ow = owner \<and> p' = pid)" for ow p'
  proof
    assume "list_ex (\<lambda>r. covers r a) (mPutRequests ?A ! ow ! p')"
    then have "may_write ?A ow p' a" by (simp add: may_write_def)
    with G(7)[of ow p' a] that(1,2) have "may_write s ow p' a" by simp
    with assms(7) that show False by simp
  qed
  have own: "find (\<lambda>r. covers r a) (mPutRequests ?A ! owner ! pid) = Some r"
    "put_in_arena (mPutBufferStacks ?A ! owner) r"
    using assms(5,6) unfolding ar qu by (simp_all add: find_covers_append put_in_arena_def)
  have B: "?B = fold (\<lambda>pid s. ProcessPutRequests pid (ProcessSendRequests pid (ProcessPopRequests pid s)))
                 [0..<mProcCount ?A] ?A"
    by (simp add: all_procs_def)
  have pidA: "pid < mProcCount ?A" and ownerA: "owner < mProcCount ?A"
    using assms(3,4) by simp_all
  have "memory ?B a = put_value (mPutBufferStacks ?A ! owner) r a"
    unfolding B
    using puts_applied_upto[where m = "mProcCount ?A", OF sqA pidA ownerA others own order_refl] pidA
    by simp
  also have "\<dots> = put_value (mPutBufferStacks s ! owner) r a"
    unfolding ar using cov assms(6) by (rule put_value_append)
  finally have "memory ?C a = put_value (mPutBufferStacks s ! owner) r a"
    by (simp add: all_procs_memory)
  with sync first show ?thesis by blast
qed

lemma two_puts_ok: "\<not> isl two_puts"
  unfolding two_puts_def registered_def by code_simp

lemma two_puts_sized: "sized (projr two_puts)"
  unfolding two_puts_def registered_def by code_simp

lemma two_puts_running: "\<not> mAbort (projr two_puts)" "mProcCount (projr two_puts) = 2"
  unfolding two_puts_def registered_def by code_simp+

lemma two_puts_queue:
  "map put_destination (mPutRequests (projr two_puts) ! 0 ! 1) = [200, 200]"
  "map put_bufferLocation (mPutRequests (projr two_puts) ! 0 ! 1) = [0, 1]"
  "mPutBufferStacks (projr two_puts) ! 0 = [10, 20]"
  unfolding two_puts_def registered_def by code_simp+

lemma two_puts_first:
  "find (\<lambda>r. covers r 200) (mPutRequests (projr two_puts) ! 0 ! 1)
     = Some (hd (mPutRequests (projr two_puts) ! 0 ! 1))"
  "put_in_arena (mPutBufferStacks (projr two_puts) ! 0) (hd (mPutRequests (projr two_puts) ! 0 ! 1))"
  "put_value (mPutBufferStacks (projr two_puts) ! 0) (hd (mPutRequests (projr two_puts) ! 0 ! 1)) 200 = 10"
  unfolding two_puts_def registered_def by code_simp+

lemma two_puts_others:
  "\<not> may_write (projr two_puts) 0 0 200" "\<not> may_write (projr two_puts) 1 0 200"
  "\<not> may_write (projr two_puts) 1 1 200"
  unfolding two_puts_def registered_def by code_simp+

theorem earliest_Put_wins_witness:
  "\<not> isl two_puts \<and>
   map put_destination (mPutRequests (projr two_puts) ! 0 ! 1) = [200, 200] \<and>
   mPutBufferStacks (projr two_puts) ! 0 = [10, 20] \<and>
   \<not> isl (Sync (projr two_puts)) \<and> memory (projr (Sync (projr two_puts))) 200 = 10"
proof -
  have others: "\<forall>ow<mProcCount (projr two_puts). \<forall>p<mProcCount (projr two_puts).
      \<not> (ow = 0 \<and> p = 1) \<longrightarrow> \<not> may_write (projr two_puts) ow p 200"
    unfolding two_puts_running(2) using two_puts_others
    by (auto simp: less_Suc_eq numeral_2_eq_2)
  from earliest_Put_wins[OF two_puts_sized two_puts_running(1) _ _ two_puts_first(1,2) others]
  obtain s2 where "Sync (projr two_puts) = Inr s2"
    "memory s2 200 = put_value (mPutBufferStacks (projr two_puts) ! 0)
                       (hd (mPutRequests (projr two_puts) ! 0 ! 1)) 200"
    unfolding two_puts_running(2) by auto
  then show ?thesis
    using two_puts_ok two_puts_queue(1,3) two_puts_first(3) by simp
qed

end
